theory Spec2Isabelle
  imports Main
begin

section \<open>Data model (src/types.ts)\<close>

text \<open>
  \<^verbatim>\<open>AssetStatus = 'pending' | 'ready' | 'error'\<close>; the field \<^verbatim>\<open>status?\<close> of
  \<^verbatim>\<open>GeneratedAsset\<close> is optional, as are \<^verbatim>\<open>progress?\<close> and \<^verbatim>\<open>hash?\<close>.
  The fields \<^verbatim>\<open>id\<close> and \<^verbatim>\<open>size\<close> carry a prime, the plain names being HOL constants.
\<close>

datatype AssetStatus = Pending | Ready | Error

datatype AssetKind = KImage | KVideo

record GeneratedAsset =
  id' :: string
  kind :: AssetKind
  url :: string
  mime :: string
  name :: string
  detail :: string
  size' :: nat
  sizeLabel :: string
  createdAt :: nat
  status :: "AssetStatus option"
  progress :: "nat option"
  hash :: "string option"

text \<open>
  The toast messages of the source are literals outside ASCII; a toast is recorded by its
  \<^verbatim>\<open>type\<close> and a tag for the literal (or the text of a caught exception).
\<close>

datatype ToastType = Success | Failure

datatype ToastMessage =
  MsgInvalidConfig | MsgVideoDone | MsgVideoRemoved | MsgImageDone | MsgImageRemoved
  | MsgDeriveDone | MsgDeriveRemoved | MsgNoFile | MsgUnsupported | MsgCaught string

section \<open>The store and the registry of a component\<close>

text \<open>
  JavaScript objects are shared by reference: \<^verbatim>\<open>generateVideo\<close> keeps the object
  \<^verbatim>\<open>placeholder\<close> in its closure and writes to it after it has been put into the
  array. So the state holds a store of objects, and the array holds references.
  \<^verbatim>\<open>revoked\<close> logs the calls of \<^verbatim>\<open>URL.revokeObjectURL\<close>, \<^verbatim>\<open>toasts\<close> the emitted
  toast events, \<^verbatim>\<open>maxHistory\<close> is the component's prop.
\<close>

type_synonym ref = nat

record registry =
  heap :: "ref \<rightharpoonup> GeneratedAsset"
  fresh :: ref
  results :: "ref list"
  revoked :: "string list"
  toasts :: "(ToastType \<times> ToastMessage) list"
  maxHistory :: int

text \<open>\<^verbatim>\<open>new\<close>: a new object literal gets the next unused reference.\<close>

definition alloc :: "GeneratedAsset \<Rightarrow> 's registry_scheme \<Rightarrow> ref \<times> 's registry_scheme" where
  "alloc a st = (fresh st, st\<lparr>heap := (heap st)(fresh st \<mapsto> a), fresh := Suc (fresh st)\<rparr>)"

definition emit_toast :: "ToastType \<Rightarrow> ToastMessage \<Rightarrow> 's registry_scheme \<Rightarrow> 's registry_scheme" where
  "emit_toast t m st = st\<lparr>toasts := toasts st @ [(t, m)]\<rparr>"

text \<open>
  \<^verbatim>\<open>const cleanupAsset = (asset?: GeneratedAsset) => {
    if (asset?.url) URL.revokeObjectURL(asset.url) }\<close>
  An undefined asset and an empty url are both falsy.
\<close>

fun cleanupAsset :: "GeneratedAsset option \<Rightarrow> 's registry_scheme \<Rightarrow> 's registry_scheme" where
  "cleanupAsset None st = st"
| "cleanupAsset (Some a) st = (if url a \<noteq> [] then st\<lparr>revoked := revoked st @ [url a]\<rparr> else st)"

text \<open>\<^verbatim>\<open>Array.prototype.pop\<close>: the last element (undefined on an empty array) and the rest.\<close>

definition pop :: "'a list \<Rightarrow> 'a option \<times> 'a list" where
  "pop xs = (if xs = [] then (None, []) else (Some (last xs), butlast xs))"

text \<open>
  \<^verbatim>\<open>const pushResult = (asset: GeneratedAsset) => {
    videoResults.value = [asset, ...videoResults.value]
    if (videoResults.value.length > props.maxHistory) {
      const removed = videoResults.value.pop()
      cleanupAsset(removed) } }\<close>
  The three components (video, image, derivative) have the same function over their own array.
\<close>

definition pushResult :: "ref \<Rightarrow> 's registry_scheme \<Rightarrow> 's registry_scheme" where
  "pushResult r st =
     (let st1 = st\<lparr>results := r # results st\<rparr> in
      if int (length (results st1)) > maxHistory st1 then
        (case pop (results st1) of
           (removed, rest) \<Rightarrow>
             cleanupAsset (case removed of None \<Rightarrow> None | Some q \<Rightarrow> heap st1 q)
               (st1\<lparr>results := rest\<rparr>))
      else st1)"

text \<open>A sequence of \<^verbatim>\<open>pushResult\<close> calls, first call first.\<close>

fun pushAll :: "ref list \<Rightarrow> 's registry_scheme \<Rightarrow> 's registry_scheme" where
  "pushAll [] st = st"
| "pushAll (r # rs) st = pushAll rs (pushResult r st)"

text \<open>The array of a freshly mounted component is empty (\<^verbatim>\<open>ref<GeneratedAsset[]>([])\<close>).\<close>

definition registry_init :: "int \<Rightarrow> registry" where
  "registry_init mh =
     \<lparr>heap = Map.empty, fresh = 0, results = [], revoked = [], toasts = [], maxHistory = mh\<rparr>"

text \<open>
  The records of the array, in order, as the store holds them now, and their ids.
  \<^verbatim>\<open>ids_unique\<close>: every reference of the array is allocated and no two entries carry
  the same id (ids come from \<^verbatim>\<open>generateId\<close>, which draws \<^verbatim>\<open>crypto.randomUUID()\<close>).
\<close>

definition records :: "'s registry_scheme \<Rightarrow> GeneratedAsset option list" where
  "records st = map (heap st) (results st)"

definition ids_unique :: "'s registry_scheme \<Rightarrow> bool" where
  "ids_unique st \<longleftrightarrow>
     set (results st) \<subseteq> dom (heap st) \<and> distinct (map (map_option id') (records st))"

text \<open>
  \<^verbatim>\<open>URL.createObjectURL(blob)\<close> is the browser's: it returns a new URL of the scheme
  \<^verbatim>\<open>blob:\<close>; the argument stands for the rest of the URL, which the browser chooses.
\<close>

definition createObjectURL :: "string \<Rightarrow> string" where
  "createObjectURL tok = ''blob:'' @ tok"

text \<open>A write to a field of the object behind a reference.\<close>

definition update_obj :: "ref \<Rightarrow> (GeneratedAsset \<Rightarrow> GeneratedAsset) \<Rightarrow> 's registry_scheme \<Rightarrow> 's registry_scheme" where
  "update_obj p f st =
     (case heap st p of None \<Rightarrow> st | Some a \<Rightarrow> st\<lparr>heap := (heap st)(p \<mapsto> f a)\<rparr>)"

text \<open>\<^verbatim>\<open>item.id === assetId\<close> on an element of the array.\<close>

definition has_id :: "string \<Rightarrow> GeneratedAsset option \<Rightarrow> bool" where
  "has_id i ao = (case ao of None \<Rightarrow> False | Some a \<Rightarrow> id' a = i)"

definition is_pending :: "GeneratedAsset option \<Rightarrow> bool" where
  "is_pending ao = (case ao of None \<Rightarrow> False | Some a \<Rightarrow> status a = Some Pending)"

section \<open>The video generator (src/components/VideoGenerator.vue)\<close>

text \<open>
  \<^verbatim>\<open>generateVideo\<close> is an async function. A call that passed its guards is suspended at
  its awaits with \<^verbatim>\<open>placeholder\<close> in its closure: \<^verbatim>\<open>jobs\<close> lists these suspended
  calls, each with the part of the body it is in: \<^verbatim>\<open>Encoding\<close> up to line 177 (the awaits of
  \<^verbatim>\<open>getFFmpeg\<close>, \<^verbatim>\<open>exec\<close>, \<^verbatim>\<open>readFile\<close>, \<^verbatim>\<open>computeFFmpegMD5\<close>, where an exception
  leads to the catch block), \<^verbatim>\<open>Finishing\<close> at the await of \<^verbatim>\<open>deleteFile\<close> of line 187,
  whose exception the inner try catches.
\<close>

datatype phase = Encoding | Finishing

record video_state = registry +
  isVideoGenerating :: bool
  jobs :: "(ref \<times> phase) list"

definition video_init :: "int \<Rightarrow> video_state" where
  "video_init mh =
     \<lparr>heap = Map.empty, fresh = 0, results = [], revoked = [], toasts = [], maxHistory = mh,
      isVideoGenerating = False, jobs = []\<rparr>"

text \<open>The labels of lines 121 and 195, as UTF-8 bytes.\<close>

definition label_pending :: string where
  "label_pending = [CHR 0xE7, CHR 0x94, CHR 0x9F, CHR 0xE6, CHR 0x88, CHR 0x90, CHR 0xE4, CHR 0xB8, CHR 0xAD]"

definition label_failed :: string where
  "label_failed = [CHR 0xE7, CHR 0x94, CHR 0x9F, CHR 0xE6, CHR 0x88, CHR 0x90,
                   CHR 0xE5, CHR 0xA4, CHR 0xB1, CHR 0xE8, CHR 0xB4, CHR 0xA5]"

text \<open>
  Lines 101 to 126, up to the first await. \<^verbatim>\<open>valid\<close> is the outcome of the test of line 102
  on \<^verbatim>\<open>videoConfig\<close>; \<^verbatim>\<open>gid\<close> is what \<^verbatim>\<open>generateId()\<close> returns, \<^verbatim>\<open>nm\<close> and \<^verbatim>\<open>det\<close> are
  the formatted name and detail, \<^verbatim>\<open>now\<close> is \<^verbatim>\<open>Date.now()\<close>.
\<close>

definition placeholder :: "string \<Rightarrow> string \<Rightarrow> string \<Rightarrow> nat \<Rightarrow> GeneratedAsset" where
  "placeholder gid nm det now =
     \<lparr>id' = gid, kind = KVideo, url = [], mime = ''video/mp4'', name = nm, detail = det,
      size' = 0, sizeLabel = label_pending, createdAt = now, status = Some Pending,
      progress = Some 0, hash = None\<rparr>"

definition generateVideo :: "bool \<Rightarrow> string \<Rightarrow> string \<Rightarrow> string \<Rightarrow> nat \<Rightarrow> video_state \<Rightarrow> video_state" where
  "generateVideo valid gid nm det now st =
     (if \<not> valid then emit_toast Failure MsgInvalidConfig st
      else if isVideoGenerating st then st
      else
        (case alloc (placeholder gid nm det now) (st\<lparr>isVideoGenerating := True\<rparr>) of
           (p, st1) \<Rightarrow>
             (let st2 = pushResult p st1 in st2\<lparr>jobs := jobs st2 @ [(p, Encoding)]\<rparr>)))"

text \<open>
  Lines 178 to 185: the producer has delivered the blob and its hash; \<^verbatim>\<open>tok\<close> stands for the
  URL the browser makes for the blob, \<^verbatim>\<open>sz\<close> is \<^verbatim>\<open>blob.size\<close>, \<^verbatim>\<open>lbl\<close> is
  \<^verbatim>\<open>formatBytes(blob.size)\<close>.
\<close>

definition write_ready :: "ref \<Rightarrow> string \<Rightarrow> nat \<Rightarrow> string \<Rightarrow> string \<Rightarrow> 's registry_scheme \<Rightarrow> 's registry_scheme" where
  "write_ready p tok sz lbl h st =
     emit_toast Success MsgVideoDone
       (update_obj p (\<lambda>a. a\<lparr>url := createObjectURL tok, size' := sz, sizeLabel := lbl,
                              status := Some Ready, progress := Some 1, hash := Some h\<rparr>) st)"

text \<open>Lines 191 to 197: the catch block; \<^verbatim>\<open>msg\<close> is the message of the exception.\<close>

definition write_error :: "ref \<Rightarrow> string \<Rightarrow> 's registry_scheme \<Rightarrow> 's registry_scheme" where
  "write_error p msg st =
     emit_toast Failure (MsgCaught msg)
       (update_obj p (\<lambda>a. a\<lparr>status := Some Error, sizeLabel := label_failed, detail := msg\<rparr>) st)"

text \<open>Lines 198 to 203: the finally block; the call returns.\<close>

definition finally_done :: "ref \<Rightarrow> video_state \<Rightarrow> video_state" where
  "finally_done p st = st\<lparr>isVideoGenerating := False, jobs := filter (\<lambda>j. fst j \<noteq> p) (jobs st)\<rparr>"

text \<open>
  \<^verbatim>\<open>const removeAsset = (assetId: string) => {
    const asset = videoResults.value.find((item) => item.id === assetId)
    if (!asset || asset.status === 'pending') return
    cleanupAsset(asset)
    videoResults.value = videoResults.value.filter((item) => item.id !== assetId)
    emit('toast', { type: 'success', message: ... }) }\<close>
  The function returns nothing; the toast is what the caller can see of a removal.
\<close>

definition removeAsset :: "string \<Rightarrow> 's registry_scheme \<Rightarrow> 's registry_scheme" where
  "removeAsset assetId st =
     (case find (\<lambda>r. has_id assetId (heap st r)) (results st) of
        None \<Rightarrow> st
      | Some r \<Rightarrow>
          if is_pending (heap st r) then st
          else emit_toast Success MsgVideoRemoved
                 ((cleanupAsset (heap st r) st)
                    \<lparr>results := filter (\<lambda>q. \<not> has_id assetId (heap st q)) (results st)\<rparr>))"

text \<open>
  What can happen to the component: the user submits the form or presses a delete button,
  and a suspended call of \<^verbatim>\<open>generateVideo\<close> goes on (the producer delivers, the producer
  throws, the clean-up await returns). An event for a call that is not suspended at that
  place cannot happen and leaves the state as it is.
\<close>

datatype video_event =
  GenerateVideo bool string string string nat
  | ProducerReady ref string nat string string
  | ProducerFailed ref string
  | ProducerFinished ref
  | RemoveAsset string

fun video_step :: "video_event \<Rightarrow> video_state \<Rightarrow> video_state" where
  "video_step (GenerateVideo valid gid nm det now) st = generateVideo valid gid nm det now st"
| "video_step (ProducerReady p tok sz lbl h) st =
     (if (p, Encoding) \<in> set (jobs st)
      then (write_ready p tok sz lbl h st)\<lparr>jobs := map (\<lambda>j. if j = (p, Encoding) then (p, Finishing) else j) (jobs st)\<rparr>
      else st)"
| "video_step (ProducerFailed p msg) st =
     (if (p, Encoding) \<in> set (jobs st) then finally_done p (write_error p msg st) else st)"
| "video_step (ProducerFinished p) st =
     (if (p, Finishing) \<in> set (jobs st) then finally_done p st else st)"
| "video_step (RemoveAsset assetId) st = removeAsset assetId st"

fun video_run :: "video_event list \<Rightarrow> video_state \<Rightarrow> video_state" where
  "video_run [] st = st"
| "video_run (e # es) st = video_run es (video_step e st)"

text \<open>
  The status of the object behind a reference (\<^verbatim>\<open>None\<close> before the object exists), the
  pending entries of the array, the suspended call an event continues, and the number of
  steps of a run that change the status of an object.
\<close>

definition status_at :: "'s registry_scheme \<Rightarrow> ref \<Rightarrow> AssetStatus option option" where
  "status_at st r = map_option status (heap st r)"

definition pending_entries :: "'s registry_scheme \<Rightarrow> ref list" where
  "pending_entries st = filter (\<lambda>r. is_pending (heap st r)) (results st)"

fun producer_of :: "video_event \<Rightarrow> ref option" where
  "producer_of (ProducerReady p tok sz lbl h) = Some p"
| "producer_of (ProducerFailed p msg) = Some p"
| "producer_of (ProducerFinished p) = Some p"
| "producer_of e = None"

fun status_writes :: "ref \<Rightarrow> video_event list \<Rightarrow> video_state \<Rightarrow> nat" where
  "status_writes r [] st = 0"
| "status_writes r (e # es) st =
     (if status_at (video_step e st) r \<noteq> status_at st r then 1 else 0)
       + status_writes r es (video_step e st)"

text \<open>
  What holds in every state the component reaches: references are allocated in order; the
  array holds allocated references, each once; a suspended call exists only while
  \<^verbatim>\<open>isVideoGenerating\<close> is set, and there is at most one; the placeholder of a call in its
  \<^verbatim>\<open>Encoding\<close> part is pending with an empty url; and every object is pending with its call
  in the \<^verbatim>\<open>Encoding\<close> part, or ready with a url, or failed with an empty url.
\<close>

definition video_inv :: "video_state \<Rightarrow> bool" where
  "video_inv st \<longleftrightarrow>
     dom (heap st) = {..<fresh st} \<and>
     set (results st) \<subseteq> dom (heap st) \<and> distinct (results st) \<and>
     (jobs st = [] \<or> (isVideoGenerating st \<and> (\<exists>p ph. jobs st = [(p, ph)]))) \<and>
     (\<forall>p. (p, Encoding) \<in> set (jobs st) \<longrightarrow>
        (\<exists>a. heap st p = Some a \<and> status a = Some Pending \<and> url a = [])) \<and>
     (\<forall>r a. heap st r = Some a \<longrightarrow>
        (status a = Some Pending \<and> (r, Encoding) \<in> set (jobs st)) \<or>
        (status a = Some Ready \<and> url a \<noteq> []) \<or>
        (status a = Some Error \<and> url a = []))"

text \<open>
  The ids of the records of the array, in order, and the id an event draws from
  \<^verbatim>\<open>generateId\<close>.
\<close>

fun generated :: "video_event \<Rightarrow> string list" where
  "generated (GenerateVideo valid gid nm det now) = [gid]"
| "generated e = []"

definition ids_of :: "'s registry_scheme \<Rightarrow> string option list" where
  "ids_of st = map (map_option id') (records st)"

section \<open>The derivative generator (src/components/DerivativeGenerator.vue, lines 1 to 216)\<close>

text \<open>
  \<^verbatim>\<open>deriveMaterial\<close> is an async function with one await (line 181, the derivation) before
  it builds the asset. \<^verbatim>\<open>isProcessing\<close> is set from the guard of line 177 to the finally
  block, so it is set exactly while a call is suspended at that await.
\<close>

record derivative_state = registry +
  isProcessing :: bool

definition derivative_init :: "int \<Rightarrow> derivative_state" where
  "derivative_init mh =
     \<lparr>heap = Map.empty, fresh = 0, results = [], revoked = [], toasts = [], maxHistory = mh,
      isProcessing = False\<rparr>"

text \<open>The selected \<^verbatim>\<open>File\<close>, and what \<^verbatim>\<open>deriveFromImage\<close> or \<^verbatim>\<open>deriveFromVideo\<close> returns
  (the blob by the rest of its future URL and its size).\<close>

record File =
  file_name :: string
  file_type :: string

record Derived =
  blob_tok :: string
  blob_size :: nat
  derived_detail :: string
  derived_mime :: string
  derived_kind :: AssetKind
  derived_hash :: string

text \<open>Lines 165 to 179: the guards. \<^verbatim>\<open>file.type.startsWith('image/')\<close> compares a prefix.\<close>

definition deriveMaterial :: "File option \<Rightarrow> derivative_state \<Rightarrow> derivative_state" where
  "deriveMaterial selectedFile st =
     (case selectedFile of
        None \<Rightarrow> emit_toast Failure MsgNoFile st
      | Some file \<Rightarrow>
          if take 6 (file_type file) \<noteq> ''image/'' \<and> take 6 (file_type file) \<noteq> ''video/''
          then emit_toast Failure MsgUnsupported st
          else if isProcessing st then st
          else st\<lparr>isProcessing := True\<rparr>)"

text \<open>
  Lines 182 to 198 and the finally block: the derivation has returned \<^verbatim>\<open>derived\<close>;
  \<^verbatim>\<open>gid\<close> is \<^verbatim>\<open>generateId()\<close>, \<^verbatim>\<open>nm\<close> the formatted name, \<^verbatim>\<open>lbl\<close> is
  \<^verbatim>\<open>formatBytes(derived.blob.size)\<close>, \<^verbatim>\<open>now\<close> is \<^verbatim>\<open>Date.now()\<close>.
\<close>

definition derived_asset :: "Derived \<Rightarrow> string \<Rightarrow> string \<Rightarrow> string \<Rightarrow> nat \<Rightarrow> GeneratedAsset" where
  "derived_asset d gid nm lbl now =
     \<lparr>id' = gid, kind = derived_kind d, url = createObjectURL (blob_tok d), mime = derived_mime d,
      name = nm, detail = derived_detail d, size' = blob_size d, sizeLabel = lbl,
      createdAt = now, status = Some Ready, progress = None, hash = Some (derived_hash d)\<rparr>"

definition derive_done :: "Derived \<Rightarrow> string \<Rightarrow> string \<Rightarrow> string \<Rightarrow> nat \<Rightarrow> derivative_state \<Rightarrow> derivative_state" where
  "derive_done d gid nm lbl now st =
     (case alloc (derived_asset d gid nm lbl now) st of
        (p, st1) \<Rightarrow> (emit_toast Success MsgDeriveDone (pushResult p st1))\<lparr>isProcessing := False\<rparr>)"

text \<open>Lines 199 to 205: the catch block and the finally block.\<close>

definition derive_failed :: "string \<Rightarrow> derivative_state \<Rightarrow> derivative_state" where
  "derive_failed msg st = (emit_toast Failure (MsgCaught msg) st)\<lparr>isProcessing := False\<rparr>"

text \<open>
  \<^verbatim>\<open>const removeAsset = (id: string) => {
    const asset = results.value.find((item) => item.id === id)
    if (!asset) return
    cleanupAsset(asset)
    results.value = results.value.filter((item) => item.id !== id)
    emit('toast', ...) }\<close>
  Lines 51 to 57: no test of the status. The image generator has the same function
  (lines 552 to 558) with another message.
\<close>

definition removeAsset_any :: "ToastMessage \<Rightarrow> string \<Rightarrow> 's registry_scheme \<Rightarrow> 's registry_scheme" where
  "removeAsset_any m i st =
     (case find (\<lambda>r. has_id i (heap st r)) (results st) of
        None \<Rightarrow> st
      | Some r \<Rightarrow>
          emit_toast Success m
            ((cleanupAsset (heap st r) st)
               \<lparr>results := filter (\<lambda>q. \<not> has_id i (heap st q)) (results st)\<rparr>))"

definition removeAsset_derivative :: "string \<Rightarrow> derivative_state \<Rightarrow> derivative_state" where
  "removeAsset_derivative = removeAsset_any MsgDeriveRemoved"

datatype derivative_event =
  DeriveMaterial "File option"
  | DeriveDone Derived string string string nat
  | DeriveFailed string
  | RemoveDerived string

fun derivative_step :: "derivative_event \<Rightarrow> derivative_state \<Rightarrow> derivative_state" where
  "derivative_step (DeriveMaterial f) st = deriveMaterial f st"
| "derivative_step (DeriveDone d gid nm lbl now) st =
     (if isProcessing st then derive_done d gid nm lbl now st else st)"
| "derivative_step (DeriveFailed msg) st = (if isProcessing st then derive_failed msg st else st)"
| "derivative_step (RemoveDerived i) st = removeAsset_derivative i st"

fun derivative_run :: "derivative_event list \<Rightarrow> derivative_state \<Rightarrow> derivative_state" where
  "derivative_run [] st = st"
| "derivative_run (e # es) st = derivative_run es (derivative_step e st)"

section \<open>The image generator (src/components/DerivativeGenerator.vue, lines 354 to 720)\<close>

text \<open>
  \<^verbatim>\<open>generateImage\<close> runs a loop of \<^verbatim>\<open>tasks\<close> rounds, each with the awaits of
  \<^verbatim>\<open>canvasToBlob\<close> and \<^verbatim>\<open>computeHash\<close> before it builds and pushes one asset.
  \<^verbatim>\<open>rounds_left\<close> is \<^verbatim>\<open>tasks - i\<close> of the suspended call.
\<close>

record image_state = registry +
  isImageGenerating :: bool
  rounds_left :: nat

definition image_init :: "int \<Rightarrow> image_state" where
  "image_init mh =
     \<lparr>heap = Map.empty, fresh = 0, results = [], revoked = [], toasts = [], maxHistory = mh,
      isImageGenerating = False, rounds_left = 0\<rparr>"

text \<open>
  Lines 504 to 509. The source's \<^verbatim>\<open>tasks\<close> is 1 in single mode and
  \<^verbatim>\<open>Math.max(1, Math.floor(batchCount.value))\<close> in batch mode: the argument is 1, or the
  floor of \<^verbatim>\<open>batchCount\<close>.
\<close>

definition generateImage :: "nat \<Rightarrow> image_state \<Rightarrow> image_state" where
  "generateImage tasks st =
     (if isImageGenerating st then st
      else st\<lparr>isImageGenerating := True, rounds_left := max 1 tasks\<rparr>)"

text \<open>Lines 526 to 539: one round has its blob (\<^verbatim>\<open>tok\<close>, \<^verbatim>\<open>sz\<close>) and hash.\<close>

definition image_asset :: "string \<Rightarrow> nat \<Rightarrow> string \<Rightarrow> string \<Rightarrow> string \<Rightarrow> string \<Rightarrow> string \<Rightarrow> string \<Rightarrow> nat \<Rightarrow> GeneratedAsset" where
  "image_asset tok sz h gid fmt nm det lbl now =
     \<lparr>id' = gid, kind = KImage, url = createObjectURL tok, mime = fmt, name = nm, detail = det,
      size' = sz, sizeLabel = lbl, createdAt = now, status = Some Ready, progress = None,
      hash = Some h\<rparr>"

definition image_round :: "GeneratedAsset \<Rightarrow> image_state \<Rightarrow> image_state" where
  "image_round a st =
     (case alloc a st of (p, st1) \<Rightarrow> (pushResult p st1)\<lparr>rounds_left := rounds_left st - 1\<rparr>)"

text \<open>Lines 541 to 549: the loop is over, or a round has thrown.\<close>

definition image_done :: "image_state \<Rightarrow> image_state" where
  "image_done st = (emit_toast Success MsgImageDone st)\<lparr>isImageGenerating := False\<rparr>"

definition image_failed :: "string \<Rightarrow> image_state \<Rightarrow> image_state" where
  "image_failed msg st = (emit_toast Failure (MsgCaught msg) st)\<lparr>isImageGenerating := False\<rparr>"

definition removeAsset_image :: "string \<Rightarrow> image_state \<Rightarrow> image_state" where
  "removeAsset_image = removeAsset_any MsgImageRemoved"

datatype image_event =
  GenerateImage nat
  | ImageRound string nat string string string string string string nat
  | ImageDone
  | ImageFailed string
  | RemoveImage string

fun image_step :: "image_event \<Rightarrow> image_state \<Rightarrow> image_state" where
  "image_step (GenerateImage tasks) st = generateImage tasks st"
| "image_step (ImageRound tok sz h gid fmt nm det lbl now) st =
     (if isImageGenerating st \<and> 0 < rounds_left st
      then image_round (image_asset tok sz h gid fmt nm det lbl now) st else st)"
| "image_step ImageDone st =
     (if isImageGenerating st \<and> rounds_left st = 0 then image_done st else st)"
| "image_step (ImageFailed msg) st =
     (if isImageGenerating st \<and> 0 < rounds_left st then image_failed msg st else st)"
| "image_step (RemoveImage i) st = removeAsset_image i st"

fun image_run :: "image_event list \<Rightarrow> image_state \<Rightarrow> image_state" where
  "image_run [] st = st"
| "image_run (e # es) st = image_run es (image_step e st)"

text \<open>Every object of the store is ready and has a url.\<close>

definition all_ready :: "'s registry_scheme \<Rightarrow> bool" where
  "all_ready st \<longleftrightarrow> (\<forall>r a. heap st r = Some a \<longrightarrow> status a = Some Ready \<and> url a \<noteq> [])"

text \<open>The array holds allocated references, and every object is ready with a url.\<close>

definition registry_ready :: "'s registry_scheme \<Rightarrow> bool" where
  "registry_ready st \<longleftrightarrow> set (results st) \<subseteq> dom (heap st) \<and> all_ready st"

section \<open>The shared encoder (src/lib/ffmpeg.ts)\<close>













section \<open>Concrete states\<close>

text \<open>
  A store of three records for the examples below: a ready record with the newest
  \<^verbatim>\<open>createdAt\<close>, a failed record, and a pending placeholder with the oldest.
\<close>

definition example_asset :: "string \<Rightarrow> string \<Rightarrow> AssetStatus \<Rightarrow> nat \<Rightarrow> GeneratedAsset" where
  "example_asset i u s t =
     \<lparr>id' = i, kind = KVideo, url = u, mime = ''video/mp4'', name = ''video-640x360.mp4'',
      detail = [], size' = 0, sizeLabel = [], createdAt = t, status = Some s,
      progress = None, hash = None\<rparr>"

definition example_store :: "ref list \<Rightarrow> int \<Rightarrow> registry" where
  "example_store rs mh =
     \<lparr>heap = [0 \<mapsto> example_asset ''A'' ''blob:a'' Ready 30,
              1 \<mapsto> example_asset ''B'' [] Error 20,
              2 \<mapsto> example_asset ''C'' [] Pending 10],
      fresh = 3, results = rs, revoked = [], toasts = [], maxHistory = mh\<rparr>"

text \<open>A selected file and the result of its derivation.\<close>

definition example_file :: File where
  "example_file = \<lparr>file_name = ''a.png'', file_type = ''image/png''\<rparr>"

definition example_derived :: Derived where
  "example_derived =
     \<lparr>blob_tok = ''d1'', blob_size = 5, derived_detail = ''1 x 1px'', derived_mime = ''image/png'',
      derived_kind = KImage, derived_hash = ''0f''\<rparr>"

section \<open>Properties of the bounded history\<close>

lemma cleanupAsset_results [simp]: "results (cleanupAsset a st) = results st"
  by (cases a) simp_all

lemma cleanupAsset_maxHistory [simp]: "maxHistory (cleanupAsset a st) = maxHistory st"
  by (cases a) simp_all

lemma cleanupAsset_heap [simp]: "heap (cleanupAsset a st) = heap st"
  by (cases a) simp_all

lemma cleanupAsset_fresh [simp]: "fresh (cleanupAsset a st) = fresh st"
  by (cases a) simp_all

lemma cleanupAsset_toasts [simp]: "toasts (cleanupAsset a st) = toasts st"
  by (cases a) simp_all

lemma pushResult_results:
  "results (pushResult r st) =
     (if int (length (results st)) + 1 > maxHistory st then butlast (r # results st)
      else r # results st)"
  by (simp add: pushResult_def pop_def Let_def)

lemma pushResult_maxHistory [simp]: "maxHistory (pushResult r st) = maxHistory st"
  by (simp add: pushResult_def pop_def Let_def)

lemma pushResult_heap [simp]: "heap (pushResult r st) = heap st"
  by (simp add: pushResult_def pop_def Let_def)

lemma pushResult_fresh [simp]: "fresh (pushResult r st) = fresh st"
  by (simp add: pushResult_def pop_def Let_def)

lemma pushResult_toasts [simp]: "toasts (pushResult r st) = toasts st"
  by (simp add: pushResult_def pop_def Let_def)

lemma pushAll_maxHistory [simp]: "maxHistory (pushAll rs st) = maxHistory st"
  by (induction rs arbitrary: st) simp_all

lemma pushAll_heap [simp]: "heap (pushAll rs st) = heap st"
  by (induction rs arbitrary: st) simp_all

lemma pushAll_append: "pushAll (rs @ qs) st = pushAll qs (pushAll rs st)"
  by (induction rs arbitrary: st) simp_all

lemma pushResult_bounded:
  "int (length (results st)) \<le> maxHistory st \<Longrightarrow>
   int (length (results (pushResult r st))) \<le> maxHistory st"
  by (simp add: pushResult_results)

lemma pushAll_bounded:
  "int (length (results st)) \<le> maxHistory st \<Longrightarrow>
   int (length (results (pushAll rs st))) \<le> maxHistory st"
proof (induction rs arbitrary: st)
  case Nil
  then show ?case by simp
next
  case (Cons r rs)
  have "int (length (results (pushResult r st))) \<le> maxHistory (pushResult r st)"
    using Cons.prems by (simp add: pushResult_bounded)
  from Cons.IH [OF this] show ?case by simp
qed

text \<open>
  C1. For a positive \<^verbatim>\<open>maxHistory\<close> and every sequence of \<^verbatim>\<open>pushResult\<close> calls on
  the initially empty array, the array holds at most \<^verbatim>\<open>maxHistory\<close> references after
  each call: after the first \<open>k\<close> calls of the sequence, for every \<open>k\<close>.
\<close>

theorem pushResult_history_bounded:
  assumes "0 < maxHistory st" and "results st = []"
  shows "int (length (results (pushAll (take k rs) st))) \<le> maxHistory st"
  using assms by (intro pushAll_bounded) simp

theorem pushResult_history_bounded_witness:
  "0 < maxHistory (registry_init 2) \<and> results (registry_init 2) = [] \<and>
   results (pushAll (take 3 [0, 1, 2]) (registry_init 2)) = [2, 1] \<and>
   int (length (results (pushAll (take 3 [0, 1, 2]) (registry_init 2)))) \<le> maxHistory (registry_init 2)"
  using pushResult_history_bounded [of "registry_init 2" 3 "[0, 1, 2]"]
  by (simp add: registry_init_def pushResult_results)

lemma take_append_take: "take m (xs @ take m ys) = take m (xs @ ys)"
  by (simp add: min_def)

lemma pushResult_results_take:
  "int (length (results st)) \<le> maxHistory st \<Longrightarrow>
   results (pushResult r st) = take (nat (maxHistory st)) (r # results st)"
  by (cases "results st" rule: rev_cases) (auto simp add: pushResult_results butlast_append nat_le_iff take_Cons')

lemma pushAll_results_take:
  "int (length (results st)) \<le> maxHistory st \<Longrightarrow>
   results (pushAll rs st) = take (nat (maxHistory st)) (rev rs @ results st)"
proof (induction rs arbitrary: st)
  case Nil
  then show ?case by simp
next
  case (Cons r rs)
  have b: "int (length (results (pushResult r st))) \<le> maxHistory (pushResult r st)"
    using Cons.prems by (simp add: pushResult_bounded)
  have "results (pushAll (r # rs) st) =
        take (nat (maxHistory st)) (rev rs @ take (nat (maxHistory st)) (r # results st))"
    using Cons.IH [OF b] Cons.prems by (simp add: pushResult_results_take)
  then show ?case by (simp only: take_append_take) simp
qed

lemma pushAll_no_overflow:
  "int (length (results st)) + int (length rs) \<le> maxHistory st \<Longrightarrow>
   pushAll rs st = st\<lparr>results := rev rs @ results st\<rparr>"
proof (induction rs arbitrary: st)
  case Nil
  then show ?case by simp
next
  case (Cons r rs)
  have "pushResult r st = st\<lparr>results := r # results st\<rparr>"
    using Cons.prems by (simp add: pushResult_def Let_def)
  then show ?case using Cons.IH [of "st\<lparr>results := r # results st\<rparr>"] Cons.prems by simp
qed

lemma pushResult_revoked:
  "revoked (pushResult r st) =
     (if int (length (results st)) + 1 > maxHistory st
      then revoked (cleanupAsset (heap st (last (r # results st))) st)
      else revoked st)"
  apply (simp add: pushResult_def pop_def Let_def)
  apply (cases "heap st (last (r # results st))")
   apply auto
  done

text \<open>
  C2. From the empty array, \<^verbatim>\<open>maxHistory + 1\<close> calls of \<^verbatim>\<open>pushResult\<close> (in the order
  \<open>rs\<close>) leave the \<^verbatim>\<open>maxHistory\<close> references pushed last, newest first; the one that left
  is the first pushed, and it is the one \<^verbatim>\<open>cleanupAsset\<close> was called on. The array is the same
  whatever the store holds, so whatever the \<^verbatim>\<open>createdAt\<close> values are.
\<close>

theorem overflow_keeps_newest:
  assumes "results st = []" and "0 < maxHistory st" and "int (length rs) = maxHistory st + 1"
  shows "results (pushAll rs st) = rev (tl rs) \<and>
         int (length (results (pushAll rs st))) = maxHistory st \<and>
         revoked (pushAll rs st) = revoked (cleanupAsset (heap st (hd rs)) st) \<and>
         results (pushAll rs (st\<lparr>heap := h\<rparr>)) = results (pushAll rs st)"
proof -
  from assms obtain r qs where rs: "rs = r # qs" by (cases rs) auto
  with assms have len: "int (length qs) = maxHistory st" by simp
  have b: "int (length (results st)) \<le> maxHistory st" using assms by simp
  have 1: "results (pushAll rs st) = rev (tl rs)"
    using pushAll_results_take [OF b, of rs] assms(1) len rs by simp
  have b': "int (length (results (st\<lparr>heap := h\<rparr>))) \<le> maxHistory (st\<lparr>heap := h\<rparr>)"
    using assms by simp
  have 4: "results (pushAll rs (st\<lparr>heap := h\<rparr>)) = rev (tl rs)"
    using pushAll_results_take [OF b', of rs] assms(1) len rs by simp
  have 2: "int (length (results (pushAll rs st))) = maxHistory st"
    using 1 len rs by simp
  have "rs \<noteq> []" using rs by simp
  then obtain ps q where bl: "rs = ps @ [q]" by (metis rev_exhaust)
  with assms have lps: "int (length ps) = maxHistory st" by simp
  then have ne: "ps \<noteq> []" using assms(2) by auto
  have "pushAll ps st = st\<lparr>results := rev ps\<rparr>"
    using pushAll_no_overflow [of st ps] assms(1) lps by simp
  then have "pushAll rs st = pushResult q (st\<lparr>results := rev ps\<rparr>)"
    by (simp add: bl pushAll_append)
  moreover have "last (q # rev ps) = hd rs" using ne bl by (simp add: last_rev)
  ultimately have 3: "revoked (pushAll rs st) = revoked (cleanupAsset (heap st (hd rs)) st)"
    using lps by (cases "heap st (hd rs)") (simp_all add: pushResult_revoked)
  from 1 2 3 4 show ?thesis by simp
qed

theorem overflow_keeps_newest_witness:
  "results (example_store [] 2) = [] \<and> 0 < maxHistory (example_store [] 2) \<and>
   int (length [0, 1, 2::nat]) = maxHistory (example_store [] 2) + 1 \<and>
   results (pushAll [0, 1, 2] (example_store [] 2)) = [2, 1] \<and>
   revoked (pushAll [0, 1, 2] (example_store [] 2)) = [''blob:a''] \<and>
   results (pushAll [0, 1, 2] ((example_store [] 2)\<lparr>heap := Map.empty\<rparr>)) = [2, 1]"
  using overflow_keeps_newest [of "example_store [] 2" "[0, 1, 2]" Map.empty]
  by (simp add: example_store_def example_asset_def)

text \<open>
  C3. A call of \<^verbatim>\<open>pushResult\<close> that overflows takes the last (oldest) entry out of the
  array and revokes its url once; when that record has no url (a placeholder), nothing
  is revoked.
\<close>

theorem eviction_releases_once:
  assumes "int (length (results st)) + 1 > maxHistory st"
    and "heap st (last (r # results st)) = Some a"
  shows "results (pushResult r st) = butlast (r # results st) \<and>
         revoked (pushResult r st) = (if url a = [] then revoked st else revoked st @ [url a])"
  using assms by (simp add: pushResult_results pushResult_revoked)

theorem eviction_releases_once_witness:
  "results (pushResult 2 (example_store [1, 0] 2)) = [2, 1] \<and>
   revoked (pushResult 2 (example_store [1, 0] 2)) = [''blob:a''] \<and>
   results (pushResult 0 (example_store [1, 2] 2)) = [0, 1] \<and>
   revoked (pushResult 0 (example_store [1, 2] 2)) = []"
  using eviction_releases_once [of "example_store [1, 0] 2" 2 "example_asset ''A'' ''blob:a'' Ready 30"]
    eviction_releases_once [of "example_store [1, 2] 2" 0 "example_asset ''C'' [] Pending 10"]
  by (simp add: example_store_def example_asset_def)

section \<open>Properties of \<^verbatim>\<open>removeAsset\<close> of the video generator\<close>

lemma find_distinct_map:
  "distinct (map f xs) \<Longrightarrow> x \<in> set xs \<Longrightarrow> find (\<lambda>y. f y = f x) xs = Some x"
  by (induction xs) auto

lemma filter_distinct_map:
  "distinct (map f xs) \<Longrightarrow> x \<in> set xs \<Longrightarrow> filter (\<lambda>y. f y \<noteq> f x) xs = remove1 x xs"
proof (induction xs)
  case Nil
  then show ?case by simp
next
  case (Cons y ys)
  show ?case
  proof (cases "y = x")
    case True
    have "\<forall>z\<in>set ys. f z \<noteq> f x" using Cons.prems True by (auto simp add: image_iff)
    then have "filter (\<lambda>y. f y \<noteq> f x) ys = ys" by (simp add: filter_id_conv)
    with True show ?thesis by simp
  next
    case False
    then show ?thesis using Cons by auto
  qed
qed

lemma has_id_map_option: "has_id i ao \<longleftrightarrow> map_option id' ao = Some i"
  by (cases ao) (auto simp add: has_id_def)

lemma ids_unique_find:
  assumes "ids_unique st" and "r \<in> set (results st)" and "heap st r = Some a"
  shows "find (\<lambda>q. has_id (id' a) (heap st q)) (results st) = Some r"
proof -
  let ?f = "\<lambda>q. map_option id' (heap st q)"
  have d: "distinct (map ?f (results st))"
    using assms(1) by (simp add: ids_unique_def records_def comp_def)
  have "find (\<lambda>q. ?f q = ?f r) (results st) = Some r"
    using d assms(2) by (rule find_distinct_map)
  then show ?thesis using assms(3) by (simp add: has_id_map_option)
qed

lemma ids_unique_filter:
  assumes "ids_unique st" and "r \<in> set (results st)" and "heap st r = Some a"
  shows "filter (\<lambda>q. \<not> has_id (id' a) (heap st q)) (results st) = remove1 r (results st)"
proof -
  let ?f = "\<lambda>q. map_option id' (heap st q)"
  have d: "distinct (map ?f (results st))"
    using assms(1) by (simp add: ids_unique_def records_def comp_def)
  have "filter (\<lambda>q. ?f q \<noteq> ?f r) (results st) = remove1 r (results st)"
    using d assms(2) by (rule filter_distinct_map)
  then show ?thesis using assms(3) by (simp add: has_id_map_option)
qed

text \<open>
  C4. For a record of the array whose status is pending, \<^verbatim>\<open>removeAsset\<close> on its id
  returns at once: the whole state is as before, so no entry has left the array, nothing
  was revoked and no toast was emitted. (The function returns no value; the toast of a
  removal is what a caller can see.) Ids are unique in the array.
\<close>

theorem remove_pending_refused:
  assumes "ids_unique st" and "r \<in> set (results st)" and "heap st r = Some a"
    and "status a = Some Pending"
  shows "removeAsset (id' a) st = st"
  using assms by (simp add: removeAsset_def ids_unique_find is_pending_def)

theorem remove_pending_refused_witness:
  "ids_unique (example_store [2, 1, 0] 3) \<and> 2 \<in> set (results (example_store [2, 1, 0] 3)) \<and>
   heap (example_store [2, 1, 0] 3) 2 = Some (example_asset ''C'' [] Pending 10) \<and>
   removeAsset ''C'' (example_store [2, 1, 0] 3) = example_store [2, 1, 0] 3"
  using remove_pending_refused [of "example_store [2, 1, 0] 3" 2 "example_asset ''C'' [] Pending 10"]
  by (simp add: example_store_def example_asset_def ids_unique_def records_def)

text \<open>
  C5. For a record of the array whose status is ready or error, \<^verbatim>\<open>removeAsset\<close> on its id
  takes exactly that entry out of the array, the others staying in order and the store
  as it is, revokes the record's url (nothing when the url is empty), and emits the toast.
  Ids are unique in the array.
\<close>

theorem remove_settled_removes:
  assumes "ids_unique st" and "r \<in> set (results st)" and "heap st r = Some a"
    and "status a = Some Ready \<or> status a = Some Error"
  shows "results (removeAsset (id' a) st) = remove1 r (results st) \<and>
         heap (removeAsset (id' a) st) = heap st \<and>
         revoked (removeAsset (id' a) st) = (if url a = [] then revoked st else revoked st @ [url a]) \<and>
         toasts (removeAsset (id' a) st) = toasts st @ [(Success, MsgVideoRemoved)]"
  using assms
  by (auto simp add: removeAsset_def ids_unique_find ids_unique_filter is_pending_def emit_toast_def)

theorem remove_settled_removes_witness:
  "results (removeAsset ''A'' (example_store [2, 1, 0] 3)) = [2, 1] \<and>
   revoked (removeAsset ''A'' (example_store [2, 1, 0] 3)) = [''blob:a''] \<and>
   results (removeAsset ''B'' (example_store [2, 1, 0] 3)) = [2, 0] \<and>
   revoked (removeAsset ''B'' (example_store [2, 1, 0] 3)) = [] \<and>
   toasts (removeAsset ''B'' (example_store [2, 1, 0] 3)) = [(Success, MsgVideoRemoved)]"
  using remove_settled_removes [of "example_store [2, 1, 0] 3" 0 "example_asset ''A'' ''blob:a'' Ready 30"]
    remove_settled_removes [of "example_store [2, 1, 0] 3" 1 "example_asset ''B'' [] Error 20"]
  by (simp add: example_store_def example_asset_def ids_unique_def records_def)

section \<open>What holds in every state of the video generator\<close>

lemma cleanupAsset_more [simp]:
  "isVideoGenerating (cleanupAsset a st) = isVideoGenerating st"
  "jobs (cleanupAsset a st) = jobs st"
  by (cases a; simp)+

lemma pushResult_more [simp]:
  "isVideoGenerating (pushResult r st) = isVideoGenerating st"
  "jobs (pushResult r st) = jobs st"
  by (simp_all add: pushResult_def pop_def Let_def)

lemma video_inv_init: "video_inv (video_init mh)"
  by (simp add: video_inv_def video_init_def)

lemma pushResult_results_subset: "set (results (pushResult r st)) \<subseteq> insert r (set (results st))"
  by (auto simp add: pushResult_results dest: in_set_butlastD)

lemma pushResult_results_distinct:
  "distinct (results st) \<Longrightarrow> r \<notin> set (results st) \<Longrightarrow> distinct (results (pushResult r st))"
  using distinct_butlast [of "r # results st"] by (simp add: pushResult_results)

lemma video_invI:
  assumes "dom (heap st) = {..<fresh st}"
    and "set (results st) \<subseteq> dom (heap st)" and "distinct (results st)"
    and "jobs st = [] \<or> (isVideoGenerating st \<and> (\<exists>p ph. jobs st = [(p, ph)]))"
    and "\<forall>p. (p, Encoding) \<in> set (jobs st) \<longrightarrow>
          (\<exists>a. heap st p = Some a \<and> status a = Some Pending \<and> url a = [])"
    and "\<forall>r a. heap st r = Some a \<longrightarrow>
          (status a = Some Pending \<and> (r, Encoding) \<in> set (jobs st)) \<or>
          (status a = Some Ready \<and> url a \<noteq> []) \<or>
          (status a = Some Error \<and> url a = [])"
  shows "video_inv st"
  using assms unfolding video_inv_def by blast

lemma video_inv_generateVideo:
  assumes "video_inv st"
  shows "video_inv (generateVideo valid gid nm det now st)"
proof (cases "valid \<and> \<not> isVideoGenerating st")
  case False
  then show ?thesis using assms
    by (auto simp add: generateVideo_def emit_toast_def video_inv_def)
next
  case True
  let ?p = "fresh st"
  let ?st1 = "st\<lparr>isVideoGenerating := True, heap := (heap st)(?p \<mapsto> placeholder gid nm det now), fresh := Suc ?p\<rparr>"
  let ?st2 = "pushResult ?p ?st1"
  have g: "generateVideo valid gid nm det now st = ?st2\<lparr>jobs := jobs ?st2 @ [(?p, Encoding)]\<rparr>"
    using True by (simp add: generateVideo_def alloc_def Let_def)
  have j: "jobs st = []" using assms True by (auto simp add: video_inv_def)
  have d: "dom (heap st) = {..<fresh st}" using assms by (simp add: video_inv_def)
  have nin: "?p \<notin> set (results st)" using assms by (auto simp add: video_inv_def)
  have hn: "heap st ?p = None" using d by (metis domIff lessThan_iff less_irrefl)
  have sub: "set (results ?st2) \<subseteq> insert ?p (set (results st))"
    using pushResult_results_subset [of ?p ?st1] by simp
  have dis: "distinct (results ?st2)"
    using pushResult_results_distinct [of ?st1 ?p] assms nin by (simp add: video_inv_def)
  have rs: "set (results st) \<subseteq> {..<fresh st}" using assms d by (simp add: video_inv_def)
  have hp: "heap ?st2 = (heap st)(?p \<mapsto> placeholder gid nm det now)" by simp
  have fr: "fresh ?st2 = Suc ?p" by simp
  have jb: "jobs ?st2 = []" using j by simp
  have 1: "dom (heap ?st2) = {..<fresh ?st2}" unfolding hp fr using d by (auto simp add: lessThan_Suc)
  have 2: "set (results ?st2) \<subseteq> dom (heap ?st2)"
    unfolding 1 fr using sub rs by (auto simp add: less_Suc_eq)
  have old: "\<forall>r a. heap st r = Some a \<longrightarrow>
        (status a = Some Ready \<and> url a \<noteq> []) \<or> (status a = Some Error \<and> url a = [])"
    using assms j by (simp add: video_inv_def)
  have 5: "\<forall>r a. heap ?st2 r = Some a \<longrightarrow>
        (status a = Some Pending \<and> r = ?p) \<or>
        (status a = Some Ready \<and> url a \<noteq> []) \<or>
        (status a = Some Error \<and> url a = [])"
    unfolding hp using old by (auto simp add: placeholder_def)
  have 4: "\<exists>a. heap ?st2 ?p = Some a \<and> status a = Some Pending \<and> url a = []"
    unfolding hp by (simp add: placeholder_def)
  show ?thesis
    unfolding g by (rule video_invI) (use 1 2 dis 4 5 jb in simp_all)
qed

lemma update_obj_heap:
  "heap (update_obj p f st) = (case heap st p of None \<Rightarrow> heap st | Some a \<Rightarrow> (heap st)(p \<mapsto> f a))"
  by (simp add: update_obj_def split: option.splits)

lemma update_obj_fields [simp]:
  "fresh (update_obj p f st) = fresh st"
  "results (update_obj p f st) = results st"
  "revoked (update_obj p f st) = revoked st"
  "toasts (update_obj p f st) = toasts st"
  "maxHistory (update_obj p f st) = maxHistory st"
  "isVideoGenerating (update_obj p f vs) = isVideoGenerating vs"
  "jobs (update_obj p f vs) = jobs vs"
  by (simp_all add: update_obj_def split: option.splits)

lemma write_ready_heap:
  "heap st p = Some a \<Longrightarrow>
   heap (write_ready p tok sz lbl h st) =
     (heap st)(p \<mapsto> a\<lparr>url := createObjectURL tok, size' := sz, sizeLabel := lbl,
                          status := Some Ready, progress := Some 1, hash := Some h\<rparr>)"
  by (simp add: write_ready_def emit_toast_def update_obj_heap)

lemma write_ready_fields [simp]:
  "fresh (write_ready p tok sz lbl h st) = fresh st"
  "results (write_ready p tok sz lbl h st) = results st"
  "revoked (write_ready p tok sz lbl h st) = revoked st"
  "maxHistory (write_ready p tok sz lbl h st) = maxHistory st"
  "isVideoGenerating (write_ready p tok sz lbl h vs) = isVideoGenerating vs"
  "jobs (write_ready p tok sz lbl h vs) = jobs vs"
  by (simp_all add: write_ready_def emit_toast_def)

lemma write_error_heap:
  "heap st p = Some a \<Longrightarrow>
   heap (write_error p msg st) =
     (heap st)(p \<mapsto> a\<lparr>status := Some Error, sizeLabel := label_failed, detail := msg\<rparr>)"
  by (simp add: write_error_def emit_toast_def update_obj_heap)

lemma write_error_fields [simp]:
  "fresh (write_error p msg st) = fresh st"
  "results (write_error p msg st) = results st"
  "revoked (write_error p msg st) = revoked st"
  "maxHistory (write_error p msg st) = maxHistory st"
  "isVideoGenerating (write_error p msg vs) = isVideoGenerating vs"
  "jobs (write_error p msg vs) = jobs vs"
  by (simp_all add: write_error_def emit_toast_def)

lemma removeAsset_fields [simp]:
  "heap (removeAsset i st) = heap st"
  "fresh (removeAsset i st) = fresh st"
  "maxHistory (removeAsset i st) = maxHistory st"
  "isVideoGenerating (removeAsset i vs) = isVideoGenerating vs"
  "jobs (removeAsset i vs) = jobs vs"
  by (simp_all add: removeAsset_def emit_toast_def split: option.splits)

lemma removeAsset_results:
  "results (removeAsset i st) = results st \<or>
   results (removeAsset i st) = filter (\<lambda>q. \<not> has_id i (heap st q)) (results st)"
  by (simp add: removeAsset_def emit_toast_def split: option.splits)

text \<open>The heap after a step, case by case.\<close>

lemma video_step_heap:
  assumes "video_inv st"
  shows "heap (video_step e st) = heap st \<or>
         (\<exists>valid gid nm det now. e = GenerateVideo valid gid nm det now \<and> heap st (fresh st) = None \<and>
            heap (video_step e st) = (heap st)(fresh st \<mapsto> placeholder gid nm det now)) \<or>
         (\<exists>p a tok sz lbl h. e = ProducerReady p tok sz lbl h \<and> heap st p = Some a \<and>
            status a = Some Pending \<and> url a = [] \<and>
            heap (video_step e st) =
              (heap st)(p \<mapsto> a\<lparr>url := createObjectURL tok, size' := sz, sizeLabel := lbl,
                                   status := Some Ready, progress := Some 1, hash := Some h\<rparr>)) \<or>
         (\<exists>p a msg. e = ProducerFailed p msg \<and> heap st p = Some a \<and>
            status a = Some Pending \<and> url a = [] \<and>
            heap (video_step e st) =
              (heap st)(p \<mapsto> a\<lparr>status := Some Error, sizeLabel := label_failed, detail := msg\<rparr>))"
proof (cases e)
  case (GenerateVideo valid gid nm det now)
  have "heap st (fresh st) = None"
    using assms by (metis video_inv_def domIff lessThan_iff less_irrefl)
  then show ?thesis using GenerateVideo
    by (simp add: generateVideo_def alloc_def emit_toast_def Let_def)
next
  case (ProducerReady p tok sz lbl h)
  show ?thesis
  proof (cases "(p, Encoding) \<in> set (jobs st)")
    case True
    then obtain a where "heap st p = Some a" "status a = Some Pending" "url a = []"
      using assms by (auto simp add: video_inv_def)
    then show ?thesis using ProducerReady True by (simp add: write_ready_heap)
  next
    case False
    then show ?thesis using ProducerReady by simp
  qed
next
  case (ProducerFailed p msg)
  show ?thesis
  proof (cases "(p, Encoding) \<in> set (jobs st)")
    case True
    then obtain a where "heap st p = Some a" "status a = Some Pending" "url a = []"
      using assms by (auto simp add: video_inv_def)
    then show ?thesis using ProducerFailed True by (simp add: write_error_heap finally_done_def)
  next
    case False
    then show ?thesis using ProducerFailed by simp
  qed
next
  case (ProducerFinished p)
  then show ?thesis by (simp add: finally_done_def)
next
  case (RemoveAsset i)
  then show ?thesis by simp
qed

lemma video_invD:
  assumes "video_inv st"
  shows "dom (heap st) = {..<fresh st}"
    and "set (results st) \<subseteq> dom (heap st)" and "distinct (results st)"
    and "jobs st = [] \<or> (isVideoGenerating st \<and> (\<exists>p ph. jobs st = [(p, ph)]))"
    and "\<forall>p. (p, Encoding) \<in> set (jobs st) \<longrightarrow>
          (\<exists>a. heap st p = Some a \<and> status a = Some Pending \<and> url a = [])"
    and "\<forall>r a. heap st r = Some a \<longrightarrow>
          (status a = Some Pending \<and> (r, Encoding) \<in> set (jobs st)) \<or>
          (status a = Some Ready \<and> url a \<noteq> []) \<or>
          (status a = Some Error \<and> url a = [])"
  using assms unfolding video_inv_def by blast+

lemma video_inv_job:
  assumes "video_inv st" and "(p, ph) \<in> set (jobs st)"
  shows "jobs st = [(p, ph)]" and "isVideoGenerating st"
  using video_invD(4) [OF assms(1)] assms(2) by auto

text \<open>The invariant when the only suspended call has left its \<^verbatim>\<open>Encoding\<close> part.\<close>

lemma video_inv_settledI:
  assumes "dom (heap st) = {..<fresh st}"
    and "set (results st) \<subseteq> dom (heap st)" and "distinct (results st)"
    and "jobs st = [] \<or> (isVideoGenerating st \<and> (\<exists>p. jobs st = [(p, Finishing)]))"
    and "\<forall>r a. heap st r = Some a \<longrightarrow>
          (status a = Some Ready \<and> url a \<noteq> []) \<or> (status a = Some Error \<and> url a = [])"
  shows "video_inv st"
proof (rule video_invI)
  show "jobs st = [] \<or> (isVideoGenerating st \<and> (\<exists>p ph. jobs st = [(p, ph)]))"
    using assms(4) by blast
  show "\<forall>p. (p, Encoding) \<in> set (jobs st) \<longrightarrow>
          (\<exists>a. heap st p = Some a \<and> status a = Some Pending \<and> url a = [])"
    using assms(4) by auto
  show "\<forall>r a. heap st r = Some a \<longrightarrow>
          (status a = Some Pending \<and> (r, Encoding) \<in> set (jobs st)) \<or>
          (status a = Some Ready \<and> url a \<noteq> []) \<or>
          (status a = Some Error \<and> url a = [])"
    using assms(5) by blast
qed (rule assms)+

lemma video_inv_others_settled:
  assumes "video_inv st" and "(p, Encoding) \<in> set (jobs st)"
    and "heap st r = Some b" and "r \<noteq> p"
  shows "(status b = Some Ready \<and> url b \<noteq> []) \<or> (status b = Some Error \<and> url b = [])"
proof -
  have "jobs st = [(p, Encoding)]" using assms(1,2) by (rule video_inv_job)
  then show ?thesis using video_invD(6) [OF assms(1)] assms(3,4) by auto
qed

lemma video_inv_ProducerReady:
  assumes "video_inv st"
  shows "video_inv (video_step (ProducerReady p tok sz lbl h) st)"
proof (cases "(p, Encoding) \<in> set (jobs st)")
  case False
  then show ?thesis using assms by simp
next
  case True
  obtain a where a: "heap st p = Some a"
    using video_invD(5) [OF assms] True by blast
  have j: "jobs st = [(p, Encoding)]" "isVideoGenerating st"
    using assms True by (rule video_inv_job)+
  define st' where "st' = video_step (ProducerReady p tok sz lbl h) st"
  have hp: "heap st' = (heap st)(p \<mapsto> a\<lparr>url := createObjectURL tok, size' := sz, sizeLabel := lbl,
                          status := Some Ready, progress := Some 1, hash := Some h\<rparr>)"
    using True a by (simp add: st'_def write_ready_heap)
  have f: "fresh st' = fresh st" "results st' = results st" "jobs st' = [(p, Finishing)]"
     "isVideoGenerating st'"
    using True j by (simp_all add: st'_def)
  have dm: "dom (heap st') = dom (heap st)" unfolding hp using a by auto
  have "video_inv st'"
  proof (rule video_inv_settledI)
    show "dom (heap st') = {..<fresh st'}" using dm f video_invD(1) [OF assms] by simp
    show "set (results st') \<subseteq> dom (heap st')" using dm f video_invD(2) [OF assms] by simp
    show "distinct (results st')" using f video_invD(3) [OF assms] by simp
    show "jobs st' = [] \<or> (isVideoGenerating st' \<and> (\<exists>p. jobs st' = [(p, Finishing)]))"
      using f by simp
    show "\<forall>r b. heap st' r = Some b \<longrightarrow>
          (status b = Some Ready \<and> url b \<noteq> []) \<or> (status b = Some Error \<and> url b = [])"
    proof (intro allI impI)
      fix r b assume b: "heap st' r = Some b"
      show "(status b = Some Ready \<and> url b \<noteq> []) \<or> (status b = Some Error \<and> url b = [])"
      proof (cases "r = p")
        case True
        then show ?thesis using b hp by (auto simp add: createObjectURL_def)
      next
        case False
        then have "heap st r = Some b" using b hp by simp
        with assms \<open>(p, Encoding) \<in> set (jobs st)\<close> show ?thesis
          using False by (rule video_inv_others_settled)
      qed
    qed
  qed
  then show ?thesis by (simp add: st'_def)
qed

lemma video_inv_finally:
  assumes "video_inv st" and "(p, ph) \<in> set (jobs st)"
    and "\<forall>r b. heap st r = Some b \<longrightarrow>
        (status b = Some Ready \<and> url b \<noteq> []) \<or> (status b = Some Error \<and> url b = [])"
  shows "video_inv (finally_done p st)"
proof (rule video_inv_settledI)
  have j: "jobs st = [(p, ph)]" using assms(1,2) by (rule video_inv_job)
  show "dom (heap (finally_done p st)) = {..<fresh (finally_done p st)}"
    using video_invD(1) [OF assms(1)] by (simp add: finally_done_def)
  show "set (results (finally_done p st)) \<subseteq> dom (heap (finally_done p st))"
    using video_invD(2) [OF assms(1)] by (simp add: finally_done_def)
  show "distinct (results (finally_done p st))"
    using video_invD(3) [OF assms(1)] by (simp add: finally_done_def)
  show "jobs (finally_done p st) = [] \<or>
     (isVideoGenerating (finally_done p st) \<and> (\<exists>q. jobs (finally_done p st) = [(q, Finishing)]))"
    using j by (simp add: finally_done_def)
  show "\<forall>r b. heap (finally_done p st) r = Some b \<longrightarrow>
        (status b = Some Ready \<and> url b \<noteq> []) \<or> (status b = Some Error \<and> url b = [])"
    using assms(3) by (simp add: finally_done_def)
qed

lemma video_inv_ProducerFailed:
  assumes "video_inv st"
  shows "video_inv (video_step (ProducerFailed p msg) st)"
proof (cases "(p, Encoding) \<in> set (jobs st)")
  case False
  then show ?thesis using assms by simp
next
  case True
  obtain a where a: "heap st p = Some a" "url a = []"
    using video_invD(5) [OF assms] True by blast
  have j: "jobs st = [(p, Encoding)]" "isVideoGenerating st"
    using assms True by (rule video_inv_job)+
  define st' where "st' = write_error p msg st"
  have hp: "heap st' = (heap st)(p \<mapsto> a\<lparr>status := Some Error, sizeLabel := label_failed, detail := msg\<rparr>)"
    using a by (simp add: st'_def write_error_heap)
  have f: "fresh st' = fresh st" "results st' = results st" "jobs st' = jobs st"
     "isVideoGenerating st' = isVideoGenerating st"
    by (simp_all add: st'_def)
  have dm: "dom (heap st') = dom (heap st)" unfolding hp using a by auto
  have new: "\<forall>r b. heap st' r = Some b \<longrightarrow>
        (status b = Some Ready \<and> url b \<noteq> []) \<or> (status b = Some Error \<and> url b = [])"
  proof (intro allI impI)
    fix r b assume b: "heap st' r = Some b"
    show "(status b = Some Ready \<and> url b \<noteq> []) \<or> (status b = Some Error \<and> url b = [])"
    proof (cases "r = p")
      case True
      then show ?thesis using b hp a by auto
    next
      case False
      then have "heap st r = Some b" using b hp by simp
      with assms \<open>(p, Encoding) \<in> set (jobs st)\<close> show ?thesis
        using False by (rule video_inv_others_settled)
    qed
  qed
  define st2 where "st2 = finally_done p st'"
  have f2: "heap st2 = heap st'" "fresh st2 = fresh st" "results st2 = results st" "jobs st2 = []"
    using f j by (simp_all add: st2_def finally_done_def)
  have "video_inv st2"
  proof (rule video_inv_settledI)
    show "dom (heap st2) = {..<fresh st2}" using dm f2 video_invD(1) [OF assms] by simp
    show "set (results st2) \<subseteq> dom (heap st2)" using dm f2 video_invD(2) [OF assms] by simp
    show "distinct (results st2)" using f2 video_invD(3) [OF assms] by simp
    show "jobs st2 = [] \<or> (isVideoGenerating st2 \<and> (\<exists>p. jobs st2 = [(p, Finishing)]))"
      using f2 by simp
    show "\<forall>r b. heap st2 r = Some b \<longrightarrow>
          (status b = Some Ready \<and> url b \<noteq> []) \<or> (status b = Some Error \<and> url b = [])"
      using new f2 by simp
  qed
  then show ?thesis using True by (simp add: st2_def st'_def)
qed

lemma video_inv_ProducerFinished:
  assumes "video_inv st"
  shows "video_inv (video_step (ProducerFinished p) st)"
proof (cases "(p, Finishing) \<in> set (jobs st)")
  case False
  then show ?thesis using assms by simp
next
  case True
  have j: "jobs st = [(p, Finishing)]" using assms True by (rule video_inv_job)
  have "\<forall>r b. heap st r = Some b \<longrightarrow>
        (status b = Some Ready \<and> url b \<noteq> []) \<or> (status b = Some Error \<and> url b = [])"
    using video_invD(6) [OF assms] j by simp
  with assms True have "video_inv (finally_done p st)" by (rule video_inv_finally)
  then show ?thesis using True by simp
qed

lemma video_inv_RemoveAsset:
  assumes "video_inv st"
  shows "video_inv (video_step (RemoveAsset i) st)"
proof -
  have r: "set (results (removeAsset i st)) \<subseteq> set (results st)" "distinct (results (removeAsset i st))"
    using removeAsset_results [of i st] video_invD(3) [OF assms] by auto
  have "video_inv (removeAsset i st)"
  proof (rule video_invI)
    show "dom (heap (removeAsset i st)) = {..<fresh (removeAsset i st)}"
      using video_invD(1) [OF assms] by simp
    show "set (results (removeAsset i st)) \<subseteq> dom (heap (removeAsset i st))"
      using r(1) video_invD(2) [OF assms] by simp
    show "distinct (results (removeAsset i st))" by (rule r(2))
    show "jobs (removeAsset i st) = [] \<or>
       (isVideoGenerating (removeAsset i st) \<and> (\<exists>p ph. jobs (removeAsset i st) = [(p, ph)]))"
      using video_invD(4) [OF assms] by simp
    show "\<forall>p. (p, Encoding) \<in> set (jobs (removeAsset i st)) \<longrightarrow>
          (\<exists>a. heap (removeAsset i st) p = Some a \<and> status a = Some Pending \<and> url a = [])"
      using video_invD(5) [OF assms] by simp
    show "\<forall>r a. heap (removeAsset i st) r = Some a \<longrightarrow>
          (status a = Some Pending \<and> (r, Encoding) \<in> set (jobs (removeAsset i st))) \<or>
          (status a = Some Ready \<and> url a \<noteq> []) \<or>
          (status a = Some Error \<and> url a = [])"
      using video_invD(6) [OF assms] by simp
  qed
  then show ?thesis by simp
qed

lemma video_inv_step: "video_inv st \<Longrightarrow> video_inv (video_step e st)"
proof (cases e)
  case (GenerateVideo valid gid nm det now)
  assume "video_inv st"
  then show ?thesis unfolding GenerateVideo video_step.simps by (rule video_inv_generateVideo)
qed (simp_all only: video_inv_ProducerReady video_inv_ProducerFailed video_inv_ProducerFinished
      video_inv_RemoveAsset)

lemma video_inv_run: "video_inv st \<Longrightarrow> video_inv (video_run evs st)"
  by (induction evs arbitrary: st) (simp_all add: video_inv_step)

lemma video_inv_reachable: "video_inv (video_run evs (video_init mh))"
  by (rule video_inv_run) (rule video_inv_init)


lemma status_at_step:
  assumes "video_inv st" and "status_at (video_step e st) r \<noteq> status_at st r"
  shows "(status_at st r = None \<and> status_at (video_step e st) r = Some (Some Pending) \<and>
            producer_of e = None) \<or>
         (status_at st r = Some (Some Pending) \<and> producer_of e = Some r \<and>
            (status_at (video_step e st) r = Some (Some Ready) \<or>
             status_at (video_step e st) r = Some (Some Error)))"
  using video_step_heap [OF assms(1), of e] assms(2)
  by (auto simp add: status_at_def placeholder_def split: if_splits)

lemma video_inv_error_url:
  "video_inv st \<Longrightarrow> heap st r = Some a \<Longrightarrow> status a = Some Error \<Longrightarrow> url a = []"
  using video_invD(6) [of st] by fastforce

lemma status_writes_settled:
  assumes "video_inv st" and "status_at st r = Some (Some s)" and "s \<noteq> Pending"
  shows "status_writes r evs st = 0"
  using assms
proof (induction evs arbitrary: st)
  case Nil
  then show ?case by simp
next
  case (Cons e es)
  have same: "status_at (video_step e st) r = status_at st r"
    using status_at_step [OF Cons.prems(1), of e r] Cons.prems(2,3) by auto
  have "status_writes r es (video_step e st) = 0"
    using Cons.IH [of "video_step e st"] Cons.prems same by (simp add: video_inv_step)
  then show ?case using same by simp
qed

lemma status_writes_once:
  assumes "video_inv st" and "heap st r \<noteq> None"
  shows "status_writes r evs st \<le> 1"
  using assms
proof (induction evs arbitrary: st)
  case Nil
  then show ?case by simp
next
  case (Cons e es)
  have inv': "video_inv (video_step e st)" using Cons.prems(1) by (rule video_inv_step)
  show ?case
  proof (cases "status_at (video_step e st) r = status_at st r")
    case True
    then have "heap (video_step e st) r \<noteq> None" using Cons.prems(2) by (auto simp add: status_at_def)
    then show ?thesis using Cons.IH [OF inv'] True by simp
  next
    case False
    from status_at_step [OF Cons.prems(1) False] Cons.prems(2)
    obtain s where "status_at (video_step e st) r = Some (Some s)" "s \<noteq> Pending"
      by (auto simp add: status_at_def)
    with inv' have "status_writes r es (video_step e st) = 0" by (rule status_writes_settled)
    then show ?thesis by simp
  qed
qed

lemma pending_entries_le_one:
  assumes "video_inv st"
  shows "length (pending_entries st) \<le> 1"
proof -
  have d: "distinct (pending_entries st)"
    using video_invD(3) [OF assms] by (simp add: pending_entries_def)
  have "set (pending_entries st) \<subseteq> fst ` set (jobs st)"
    using video_invD(6) [OF assms] by (force simp add: pending_entries_def is_pending_def split: option.splits)
  then have "card (set (pending_entries st)) \<le> card (fst ` set (jobs st))"
    by (intro card_mono) simp_all
  also have "\<dots> \<le> length (jobs st)" by (metis card_image_le card_length le_trans List.finite_set)
  also have "\<dots> \<le> 1" using video_invD(4) [OF assms] by auto
  finally show ?thesis using d by (simp add: distinct_card)
qed


text \<open>
  Ids stay unique in the array as long as \<^verbatim>\<open>generateId\<close> never returns the same id twice.
\<close>

lemma ids_unique_alt: "ids_unique st \<longleftrightarrow> set (results st) \<subseteq> dom (heap st) \<and> distinct (ids_of st)"
  by (simp add: ids_unique_def ids_of_def)

lemma ids_of_same:
  assumes "results st' = results st"
    and "\<forall>r \<in> set (results st). map_option id' (heap st' r) = map_option id' (heap st r)"
  shows "ids_of st' = ids_of st"
  using assms by (simp add: ids_of_def records_def)

lemma ids_of_generateVideo:
  assumes "video_inv st"
  shows "ids_of (generateVideo valid gid nm det now st) = ids_of st \<or>
         ids_of (generateVideo valid gid nm det now st) = Some gid # ids_of st \<or>
         ids_of (generateVideo valid gid nm det now st) = butlast (Some gid # ids_of st)"
proof (cases "valid \<and> \<not> isVideoGenerating st")
  case False
  then show ?thesis
    by (auto simp add: generateVideo_def emit_toast_def ids_of_def records_def)
next
  case True
  let ?st' = "generateVideo valid gid nm det now st"
  let ?f = "\<lambda>r. map_option id' (heap st r)"
  let ?f' = "\<lambda>r. map_option id' (heap ?st' r)"
  have hp: "heap ?st' = (heap st)(fresh st \<mapsto> placeholder gid nm det now)"
    using True by (simp add: generateVideo_def alloc_def Let_def)
  have nin: "fresh st \<notin> set (results st)"
    using video_invD(1,2) [OF assms] by auto
  have same: "map ?f' (results st) = map ?f (results st)"
    using nin by (auto simp add: hp)
  have new: "?f' (fresh st) = Some gid" by (simp add: hp placeholder_def)
  have all: "map ?f' (fresh st # results st) = Some gid # ids_of st"
    using same new by (simp add: ids_of_def records_def)
  have rs: "results ?st' = fresh st # results st \<or> results ?st' = butlast (fresh st # results st)"
    using True by (simp add: generateVideo_def alloc_def Let_def pushResult_results)
  have eq: "ids_of ?st' = map ?f' (results ?st')" by (simp add: ids_of_def records_def)
  from rs show ?thesis
  proof
    assume "results ?st' = fresh st # results st"
    then show ?thesis using all eq by simp
  next
    assume "results ?st' = butlast (fresh st # results st)"
    then have "ids_of ?st' = butlast (map ?f' (fresh st # results st))"
      using eq by (simp only: map_butlast)
    then have "ids_of ?st' = butlast (Some gid # ids_of st)" by (simp only: all)
    then show ?thesis by blast
  qed
qed

lemma ids_of_step:
  assumes "video_inv st"
  shows "(\<exists>gid. generated e = [gid] \<and>
            (ids_of (video_step e st) = Some gid # ids_of st \<or>
             ids_of (video_step e st) = butlast (Some gid # ids_of st))) \<or>
         ids_of (video_step e st) = ids_of st \<or>
         (\<exists>P. ids_of (video_step e st) = map (\<lambda>r. map_option id' (heap st r)) (filter P (results st)))"
proof (cases e)
  case (GenerateVideo valid gid nm det now)
  then show ?thesis using ids_of_generateVideo [OF assms, of valid gid nm det now] by auto
next
  case (ProducerReady p tok sz lbl h)
  have "ids_of (video_step e st) = ids_of st"
  proof (cases "(p, Encoding) \<in> set (jobs st)")
    case True
    then obtain a where "heap st p = Some a" using video_invD(5) [OF assms] by blast
    then show ?thesis using ProducerReady True
      by (intro ids_of_same) (simp_all add: write_ready_heap)
  next
    case False
    then show ?thesis using ProducerReady by simp
  qed
  then show ?thesis by simp
next
  case (ProducerFailed p msg)
  have "ids_of (video_step e st) = ids_of st"
  proof (cases "(p, Encoding) \<in> set (jobs st)")
    case True
    then obtain a where "heap st p = Some a" using video_invD(5) [OF assms] by blast
    then show ?thesis using ProducerFailed True
      by (intro ids_of_same) (simp_all add: write_error_heap finally_done_def)
  next
    case False
    then show ?thesis using ProducerFailed by simp
  qed
  then show ?thesis by simp
next
  case (ProducerFinished p)
  then have "ids_of (video_step e st) = ids_of st"
    by (intro ids_of_same) (simp_all add: finally_done_def)
  then show ?thesis by simp
next
  case (RemoveAsset i)
  have "ids_of (video_step e st) = ids_of st \<or>
        ids_of (video_step e st) = map (\<lambda>r. map_option id' (heap st r)) (filter (\<lambda>q. \<not> has_id i (heap st q)) (results st))"
    using removeAsset_results [of i st] RemoveAsset by (auto simp add: ids_of_def records_def)
  then show ?thesis by blast
qed

lemma ids_unique_step:
  assumes "video_inv st" and "ids_unique st"
    and "\<forall>gid \<in> set (generated e). Some gid \<notin> set (ids_of st)"
  shows "ids_unique (video_step e st) \<and>
         set (ids_of (video_step e st)) \<subseteq> set (ids_of st) \<union> Some ` set (generated e)"
proof -
  have d: "distinct (ids_of st)" using assms(2) by (simp add: ids_unique_alt)
  have sub: "set (results (video_step e st)) \<subseteq> dom (heap (video_step e st))"
    using video_invD(2) [OF video_inv_step [OF assms(1)]] .
  have "distinct (ids_of (video_step e st)) \<and>
        set (ids_of (video_step e st)) \<subseteq> set (ids_of st) \<union> Some ` set (generated e)"
    using ids_of_step [OF assms(1), of e]
  proof (elim disjE exE conjE)
    fix gid assume g: "generated e = [gid]" and "ids_of (video_step e st) = Some gid # ids_of st"
    then show ?thesis using d assms(3) by auto
  next
    fix gid assume g: "generated e = [gid]"
      and b: "ids_of (video_step e st) = butlast (Some gid # ids_of st)"
    have "distinct (Some gid # ids_of st)" using d assms(3) g by simp
    then have "distinct (butlast (Some gid # ids_of st))" by (rule distinct_butlast)
    moreover have "set (butlast (Some gid # ids_of st)) \<subseteq> set (Some gid # ids_of st)"
      by (auto dest: in_set_butlastD)
    ultimately show ?thesis using b g by auto
  next
    assume "ids_of (video_step e st) = ids_of st"
    then show ?thesis using d by auto
  next
    fix P assume f: "ids_of (video_step e st) = map (\<lambda>r. map_option id' (heap st r)) (filter P (results st))"
    have "distinct (map (\<lambda>r. map_option id' (heap st r)) (results st))"
      using d by (simp add: ids_of_def records_def comp_def)
    then have "distinct (map (\<lambda>r. map_option id' (heap st r)) (filter P (results st)))"
      by (rule distinct_map_filter)
    then show ?thesis using f by (auto simp add: ids_of_def records_def comp_def)
  qed
  then show ?thesis using sub by (simp add: ids_unique_alt)
qed

lemma ids_unique_run:
  assumes "video_inv st" and "ids_unique st"
    and "distinct (concat (map generated evs))"
    and "\<forall>gid \<in> set (concat (map generated evs)). Some gid \<notin> set (ids_of st)"
  shows "ids_unique (video_run evs st)"
  using assms
proof (induction evs arbitrary: st)
  case Nil
  then show ?case by simp
next
  case (Cons e es)
  have s: "ids_unique (video_step e st)"
    "set (ids_of (video_step e st)) \<subseteq> set (ids_of st) \<union> Some ` set (generated e)"
    using ids_unique_step [OF Cons.prems(1,2), of e] Cons.prems(4) by auto
  have "\<forall>gid \<in> set (concat (map generated es)). Some gid \<notin> set (ids_of (video_step e st))"
    using s(2) Cons.prems(3,4) by auto
  then have "ids_unique (video_run es (video_step e st))"
    using Cons.IH [OF video_inv_step [OF Cons.prems(1)] s(1)] Cons.prems(3) by simp
  then show ?case by simp
qed

lemma ids_unique_reachable:
  "distinct (concat (map generated evs)) \<Longrightarrow> ids_unique (video_run evs (video_init mh))"
  by (rule ids_unique_run)
    (simp_all add: video_inv_init, simp_all add: ids_unique_def ids_of_def records_def video_init_def)

text \<open>
  C6. In every state the video generator reaches, a step changes the status of an object
  only in these ways: the object is created pending, or it goes from pending to ready, or
  from pending to error. So ready and error are final. And an object whose status is error
  has an empty url.
\<close>

theorem status_transitions:
  assumes "st = video_run evs (video_init mh)"
  shows "(status_at (video_step e st) r \<noteq> status_at st r \<longrightarrow>
            (status_at st r = None \<and> status_at (video_step e st) r = Some (Some Pending)) \<or>
            (status_at st r = Some (Some Pending) \<and>
               (status_at (video_step e st) r = Some (Some Ready) \<or>
                status_at (video_step e st) r = Some (Some Error)))) \<and>
         (\<forall>a. heap st r = Some a \<and> status a = Some Error \<longrightarrow> url a = [])"
proof -
  have inv: "video_inv st" unfolding assms by (rule video_inv_reachable)
  show ?thesis
    using status_at_step [OF inv, of e r] video_inv_error_url [OF inv, of r] by blast
qed

theorem status_transitions_witness:
  "status_at (video_run [GenerateVideo True ''A'' ''n'' ''d'' 1] (video_init 2)) 0 = Some (Some Pending) \<and>
   status_at (video_step (ProducerReady 0 ''u'' 9 ''9 B'' ''h'')
      (video_run [GenerateVideo True ''A'' ''n'' ''d'' 1] (video_init 2))) 0 = Some (Some Ready) \<and>
   status_at (video_step (ProducerFailed 0 ''boom'')
      (video_run [GenerateVideo True ''A'' ''n'' ''d'' 1] (video_init 2))) 0 = Some (Some Error) \<and>
   status_at (video_step (ProducerFailed 0 ''late'')
      (video_run [GenerateVideo True ''A'' ''n'' ''d'' 1, ProducerReady 0 ''u'' 9 ''9 B'' ''h'']
         (video_init 2))) 0 = Some (Some Ready) \<and>
   map_option url (heap (video_run [GenerateVideo True ''A'' ''n'' ''d'' 1, ProducerFailed 0 ''boom'']
      (video_init 2)) 0) = Some []"
proof -
  let ?g = "GenerateVideo True ''A'' ''n'' ''d'' 1"
  let ?ok = "ProducerReady 0 ''u'' 9 ''9 B'' ''h''"
  have 1: "status_at (video_run [?g] (video_init 2)) 0 = Some (Some Pending)"
    by code_simp
  have 2: "status_at (video_step ?ok (video_run [?g] (video_init 2))) 0 = Some (Some Ready)"
    by code_simp
  have 3: "status_at (video_step (ProducerFailed 0 ''boom'') (video_run [?g] (video_init 2))) 0
             = Some (Some Error)"
    by code_simp
  have 4: "status_at (video_run [?g, ?ok] (video_init 2)) 0 = Some (Some Ready)"
    by code_simp
  have 5: "status (the (heap (video_run [?g, ProducerFailed 0 ''boom''] (video_init 2)) 0)) = Some Error"
    by code_simp
  have 6: "heap (video_run [?g, ProducerFailed 0 ''boom''] (video_init 2)) 0 \<noteq> None"
    by code_simp
  have "status_at (video_step (ProducerFailed 0 ''late'') (video_run [?g, ?ok] (video_init 2))) 0
          = status_at (video_run [?g, ?ok] (video_init 2)) 0"
    using status_transitions [OF refl, of "ProducerFailed 0 ''late''" "[?g, ?ok]" 2 0] 4 by auto
  moreover have "map_option url (heap (video_run [?g, ProducerFailed 0 ''boom''] (video_init 2)) 0) = Some []"
    using status_transitions [OF refl, of "ProducerFailed 0 ''late''" "[?g, ProducerFailed 0 ''boom'']" 2 0] 5 6
    by auto
  ultimately show ?thesis using 1 2 3 4 by simp
qed

text \<open>
  C7, as the claim states it: some run reaches a state whose array holds two pending
  records. No run does: \<^verbatim>\<open>generateVideo\<close> returns at line 106 while
  \<^verbatim>\<open>isVideoGenerating\<close> is set.
\<close>

theorem two_pending_counterexample:
  "\<not> (\<exists>evs mh. 2 \<le> length (pending_entries (video_run evs (video_init mh))))"
proof
  assume "\<exists>evs mh. 2 \<le> length (pending_entries (video_run evs (video_init mh)))"
  then obtain evs mh where "2 \<le> length (pending_entries (video_run evs (video_init mh)))"
    by blast
  moreover have "length (pending_entries (video_run evs (video_init mh))) \<le> 1"
    by (rule pending_entries_le_one) (rule video_inv_reachable)
  ultimately show False by simp
qed

text \<open>
  C7, amended. In every state the video generator reaches, the array holds at most one
  pending record. From then on the status of an object that exists is written at most
  once, however the run goes on, and the step that writes it continues the call of
  \<^verbatim>\<open>generateVideo\<close> that created the object. While that call is in its \<^verbatim>\<open>Encoding\<close>
  part the object is pending, and the producer's delivery writes ready, its failure error.
\<close>

theorem single_pending_single_writer:
  assumes "st = video_run evs (video_init mh)"
  shows "length (pending_entries st) \<le> 1 \<and>
         (heap st r \<noteq> None \<longrightarrow> status_writes r later st \<le> 1) \<and>
         (heap st r \<noteq> None \<and> status_at (video_step e st) r \<noteq> status_at st r \<longrightarrow>
            producer_of e = Some r) \<and>
         ((r, Encoding) \<in> set (jobs st) \<longrightarrow>
            status_at st r = Some (Some Pending) \<and>
            status_at (video_step (ProducerReady r tok sz lbl h) st) r = Some (Some Ready) \<and>
            status_at (video_step (ProducerFailed r msg) st) r = Some (Some Error))"
proof -
  have inv: "video_inv st" unfolding assms by (rule video_inv_reachable)
  have 3: "heap st r \<noteq> None \<and> status_at (video_step e st) r \<noteq> status_at st r \<longrightarrow>
            producer_of e = Some r"
    using status_at_step [OF inv, of e r] by (auto simp add: status_at_def)
  have 4: "(r, Encoding) \<in> set (jobs st) \<longrightarrow>
            status_at st r = Some (Some Pending) \<and>
            status_at (video_step (ProducerReady r tok sz lbl h) st) r = Some (Some Ready) \<and>
            status_at (video_step (ProducerFailed r msg) st) r = Some (Some Error)"
  proof
    assume j: "(r, Encoding) \<in> set (jobs st)"
    then obtain a where a: "heap st r = Some a" "status a = Some Pending"
      using video_invD(5) [OF inv] by blast
    show "status_at st r = Some (Some Pending) \<and>
            status_at (video_step (ProducerReady r tok sz lbl h) st) r = Some (Some Ready) \<and>
            status_at (video_step (ProducerFailed r msg) st) r = Some (Some Error)"
      using j a by (simp add: status_at_def write_ready_heap write_error_heap finally_done_def)
  qed
  show ?thesis
    using pending_entries_le_one [OF inv] status_writes_once [OF inv, of r later] 3 4 by blast
qed

theorem single_pending_single_writer_witness:
  "pending_entries (video_run [GenerateVideo True ''A'' ''n'' ''d'' 1, GenerateVideo True ''B'' ''n'' ''d'' 2]
      (video_init 2)) = [0] \<and>
   results (video_run [GenerateVideo True ''A'' ''n'' ''d'' 1, GenerateVideo True ''B'' ''n'' ''d'' 2]
      (video_init 2)) = [0] \<and>
   jobs (video_run [GenerateVideo True ''A'' ''n'' ''d'' 1, GenerateVideo True ''B'' ''n'' ''d'' 2]
      (video_init 2)) = [(0, Encoding)] \<and>
   status_writes 0 [ProducerReady 0 ''u'' 9 ''9 B'' ''h'', ProducerFailed 0 ''late'', ProducerFinished 0]
     (video_run [GenerateVideo True ''A'' ''n'' ''d'' 1, GenerateVideo True ''B'' ''n'' ''d'' 2]
      (video_init 2)) \<le> 1 \<and>
   producer_of (ProducerReady 0 ''u'' 9 ''9 B'' ''h'') = Some 0 \<and>
   status_at (video_step (ProducerReady 0 ''u'' 9 ''9 B'' ''h'')
     (video_run [GenerateVideo True ''A'' ''n'' ''d'' 1, GenerateVideo True ''B'' ''n'' ''d'' 2]
      (video_init 2))) 0 = Some (Some Ready)"
proof -
  let ?evs = "[GenerateVideo True ''A'' ''n'' ''d'' 1, GenerateVideo True ''B'' ''n'' ''d'' 2]"
  let ?ok = "ProducerReady 0 ''u'' 9 ''9 B'' ''h''"
  let ?st = "video_run ?evs (video_init 2)"
  note t = single_pending_single_writer [OF refl, where evs = ?evs and mh = 2 and r = 0
      and later = "[?ok, ProducerFailed 0 ''late'', ProducerFinished 0]" and e = ?ok
      and tok = "''u''" and sz = 9 and lbl = "''9 B''" and h = "''h''"]
  have 1: "pending_entries ?st = [0]" by code_simp
  have 2: "results ?st = [0]" by code_simp
  have 3: "heap ?st 0 \<noteq> None" by code_simp
  have 4: "jobs ?st = [(0, Encoding)]" by code_simp
  have 5: "(0, Encoding) \<in> set (jobs ?st)" unfolding 4 by simp
  have 6: "status_writes 0 [?ok, ProducerFailed 0 ''late'', ProducerFinished 0] ?st \<le> 1"
    using t [THEN conjunct2, THEN conjunct1, rule_format, OF 3] .
  note c = t [THEN conjunct2, THEN conjunct2, THEN conjunct2, rule_format, OF 5]
  have 7: "status_at (video_step ?ok ?st) 0 = Some (Some Ready)"
    using c [THEN conjunct2, THEN conjunct1] .
  have 8: "status_at (video_step ?ok ?st) 0 \<noteq> status_at ?st 0"
    unfolding 7 c [THEN conjunct1] by simp
  have 9: "producer_of ?ok = Some 0"
    using t [THEN conjunct2, THEN conjunct2, THEN conjunct1, rule_format, OF conjI [OF 3 8]] .
  from 1 2 4 6 9 7 show ?thesis by (intro conjI)
qed

lemma not_found_not_member:
  assumes "find (\<lambda>r. has_id (id' a) (heap st r)) (results st) = None" and "heap st p = Some a"
  shows "p \<notin> set (results st)"
  using assms by (auto simp add: find_None_iff has_id_def)

text \<open>
  C8. When the id of the placeholder of a call is not found in the array (the record has
  left it), the writes of lines 178 to 183 and those of the catch block leave the array and
  the records it holds as they are. Both are total: nothing is thrown.
\<close>

theorem completion_of_absent_record_noop:
  assumes "heap st p = Some a"
    and "find (\<lambda>r. has_id (id' a) (heap st r)) (results st) = None"
  shows "records (write_ready p tok sz lbl h st) = records st \<and>
         results (write_ready p tok sz lbl h st) = results st \<and>
         records (write_error p msg st) = records st \<and>
         results (write_error p msg st) = results st"
proof -
  have "p \<notin> set (results st)" using assms(2,1) by (rule not_found_not_member)
  then have "\<And>b. map ((heap st)(p \<mapsto> b)) (results st) = map (heap st) (results st)"
    by (simp add: map_idI)
  then show ?thesis using assms(1)
    by (simp add: records_def write_ready_heap write_error_heap)
qed

theorem completion_of_absent_record_noop_witness:
  "heap (example_store [1, 0] 2) 2 = Some (example_asset ''C'' [] Pending 10) \<and>
   find (\<lambda>r. has_id ''C'' (heap (example_store [1, 0] 2) r)) (results (example_store [1, 0] 2)) = None \<and>
   records (write_ready 2 ''u'' 9 ''9 B'' ''h'' (example_store [1, 0] 2)) =
     [Some (example_asset ''B'' [] Error 20), Some (example_asset ''A'' ''blob:a'' Ready 30)] \<and>
   records (write_error 2 ''boom'' (example_store [1, 0] 2)) =
     [Some (example_asset ''B'' [] Error 20), Some (example_asset ''A'' ''blob:a'' Ready 30)]"
proof -
  have 1: "heap (example_store [1, 0] 2) 2 = Some (example_asset ''C'' [] Pending 10)"
    by (simp add: example_store_def)
  have 2: "find (\<lambda>r. has_id (id' (example_asset ''C'' [] Pending 10)) (heap (example_store [1, 0] 2) r))
             (results (example_store [1, 0] 2)) = None"
    by (simp add: example_store_def example_asset_def has_id_def)
  have 3: "records (example_store [1, 0] 2) =
     [Some (example_asset ''B'' [] Error 20), Some (example_asset ''A'' ''blob:a'' Ready 30)]"
    by (simp add: example_store_def records_def)
  have 4: "id' (example_asset ''C'' [] Pending 10) = ''C''" by (simp add: example_asset_def)
  show ?thesis
    using completion_of_absent_record_noop [OF 1 2, of "''u''" 9 "''9 B''" "''h''" "''boom''"] 1 2 3 4
    by simp
qed

section \<open>Properties of the shared encoder\<close>

















section \<open>The records of the image and the derivative generator\<close>

lemma removeAsset_any_fields [simp]:
  "heap (removeAsset_any m i st) = heap st"
  "fresh (removeAsset_any m i st) = fresh st"
  by (simp_all add: removeAsset_any_def emit_toast_def split: option.splits)

lemma removeAsset_any_results: "set (results (removeAsset_any m i st)) \<subseteq> set (results st)"
  by (auto simp add: removeAsset_any_def emit_toast_def split: option.splits)

lemma registry_ready_remove: "registry_ready st \<Longrightarrow> registry_ready (removeAsset_any m i st)"
  using removeAsset_any_results [of m i st] by (auto simp add: registry_ready_def all_ready_def)

lemma registry_ready_push:
  assumes "registry_ready st" and "status a = Some Ready" and "url a \<noteq> []"
  shows "registry_ready (pushResult (fst (alloc a st)) (snd (alloc a st)))"
proof -
  have "set (results (pushResult (fresh st) (snd (alloc a st)))) \<subseteq> insert (fresh st) (set (results st))"
    using pushResult_results_subset [of "fresh st" "snd (alloc a st)"] by (simp add: alloc_def)
  then show ?thesis using assms
    by (auto simp add: registry_ready_def all_ready_def alloc_def split: if_splits)
qed

lemma createObjectURL_nonempty: "createObjectURL tok \<noteq> []"
  by (simp add: createObjectURL_def)

lemma registry_ready_emit [simp]: "registry_ready (emit_toast t m st) = registry_ready st"
  by (simp add: registry_ready_def all_ready_def emit_toast_def)

lemma registry_ready_more:
  "registry_ready (dst\<lparr>isProcessing := b\<rparr>) = registry_ready dst"
  "registry_ready (ist\<lparr>isImageGenerating := b\<rparr>) = registry_ready ist"
  "registry_ready (ist\<lparr>rounds_left := n\<rparr>) = registry_ready ist"
  "registry_ready (ist\<lparr>isImageGenerating := b, rounds_left := n\<rparr>) = registry_ready ist"
  by (simp_all add: registry_ready_def all_ready_def)

lemma registry_ready_derivative_step:
  assumes "registry_ready st"
  shows "registry_ready (derivative_step e st)"
proof (cases e)
  case (DeriveMaterial f)
  then show ?thesis using assms
    by (simp add: deriveMaterial_def registry_ready_more split: option.splits)
next
  case (DeriveDone d gid nm lbl now)
  have "registry_ready (pushResult (fst (alloc (derived_asset d gid nm lbl now) st))
          (snd (alloc (derived_asset d gid nm lbl now) st)))"
    using assms by (rule registry_ready_push) (simp_all add: derived_asset_def createObjectURL_nonempty)
  then show ?thesis using DeriveDone assms
    by (simp add: derive_done_def case_prod_beta registry_ready_more)
next
  case (DeriveFailed msg)
  then show ?thesis using assms by (simp add: derive_failed_def registry_ready_more)
next
  case (RemoveDerived i)
  then show ?thesis using assms by (simp add: removeAsset_derivative_def registry_ready_remove)
qed

lemma registry_ready_derivative_run:
  "registry_ready st \<Longrightarrow> registry_ready (derivative_run evs st)"
  by (induction evs arbitrary: st) (simp_all add: registry_ready_derivative_step)

lemma registry_ready_image_step:
  assumes "registry_ready st"
  shows "registry_ready (image_step e st)"
proof (cases e)
  case (GenerateImage tasks)
  then show ?thesis using assms by (simp add: generateImage_def registry_ready_more)
next
  case (ImageRound tok sz h gid fmt nm det lbl now)
  have "registry_ready (pushResult (fst (alloc (image_asset tok sz h gid fmt nm det lbl now) st))
          (snd (alloc (image_asset tok sz h gid fmt nm det lbl now) st)))"
    using assms by (rule registry_ready_push) (simp_all add: image_asset_def createObjectURL_nonempty)
  then show ?thesis using ImageRound assms
    by (simp add: image_round_def case_prod_beta registry_ready_more)
next
  case ImageDone
  then show ?thesis using assms by (simp add: image_done_def registry_ready_more)
next
  case (ImageFailed msg)
  then show ?thesis using assms by (simp add: image_failed_def registry_ready_more)
next
  case (RemoveImage i)
  then show ?thesis using assms by (simp add: removeAsset_image_def registry_ready_remove)
qed

lemma registry_ready_image_run:
  "registry_ready st \<Longrightarrow> registry_ready (image_run evs st)"
  by (induction evs arbitrary: st) (simp_all add: registry_ready_image_step)

lemma registry_ready_init:
  "registry_ready (derivative_init mh)" "registry_ready (image_init mh)"
  by (simp_all add: registry_ready_def all_ready_def derivative_init_def image_init_def)

lemma registry_ready_records:
  assumes "registry_ready st" and "ao \<in> set (records st)"
  shows "\<exists>a. ao = Some a \<and> status a = Some Ready \<and> url a \<noteq> []"
  using assms by (auto simp add: registry_ready_def all_ready_def records_def)

lemma generateVideo_head_pending:
  assumes "\<not> isVideoGenerating st" and "0 < maxHistory st"
  shows "heap (generateVideo True gid nm det now st) (hd (results (generateVideo True gid nm det now st)))
           = Some (placeholder gid nm det now)"
proof -
  have "hd (butlast (fresh st # results st)) = fresh st" if "results st \<noteq> []"
    using that by (cases "results st") simp_all
  then have "hd (results (generateVideo True gid nm det now st)) = fresh st"
    using assms by (auto simp add: generateVideo_def alloc_def Let_def pushResult_results)
  then show ?thesis using assms by (simp add: generateVideo_def alloc_def Let_def)
qed

text \<open>
  C10. In every state the derivative generator and the image generator reach, every
  record of the array is ready and has a url, and so has the asset each of them builds
  before it pushes it. So an entry that \<^verbatim>\<open>removeAsset\<close> of the derivative generator takes
  out of the array is never pending. The video generator does push a pending record: after
  a call of \<^verbatim>\<open>generateVideo\<close> that passes its guards (with \<^verbatim>\<open>maxHistory\<close> positive) the
  first entry of the array is pending.
\<close>

theorem only_video_inserts_pending:
  assumes "dst = derivative_run devs (derivative_init mh)"
    and "ist = image_run ievs (image_init mh')"
  shows "(\<forall>ao \<in> set (records dst). \<exists>a. ao = Some a \<and> status a = Some Ready \<and> url a \<noteq> []) \<and>
         (\<forall>ao \<in> set (records ist). \<exists>a. ao = Some a \<and> status a = Some Ready \<and> url a \<noteq> []) \<and>
         status (derived_asset d gid nm lbl now) = Some Ready \<and>
         url (derived_asset d gid nm lbl now) \<noteq> [] \<and>
         status (image_asset tok sz h igid fmt inm idet ilbl inow) = Some Ready \<and>
         url (image_asset tok sz h igid fmt inm idet ilbl inow) \<noteq> [] \<and>
         (\<forall>r \<in> set (results dst). r \<notin> set (results (removeAsset_derivative i dst)) \<longrightarrow>
            \<not> is_pending (heap dst r)) \<and>
         (\<not> isVideoGenerating vst \<and> 0 < maxHistory vst \<longrightarrow>
            is_pending (heap (generateVideo True vgid vnm vdet vnow vst)
              (hd (results (generateVideo True vgid vnm vdet vnow vst)))))"
proof -
  have d: "registry_ready dst" unfolding assms(1)
    by (rule registry_ready_derivative_run) (rule registry_ready_init)
  have i: "registry_ready ist" unfolding assms(2)
    by (rule registry_ready_image_run) (rule registry_ready_init)
  have 1: "\<forall>ao \<in> set (records dst). \<exists>a. ao = Some a \<and> status a = Some Ready \<and> url a \<noteq> []"
    using registry_ready_records [OF d] by blast
  have 2: "\<forall>ao \<in> set (records ist). \<exists>a. ao = Some a \<and> status a = Some Ready \<and> url a \<noteq> []"
    using registry_ready_records [OF i] by blast
  have 3: "\<forall>r \<in> set (results dst). r \<notin> set (results (removeAsset_derivative i dst)) \<longrightarrow>
            \<not> is_pending (heap dst r)"
    using d by (auto simp add: registry_ready_def all_ready_def is_pending_def split: option.splits)
  have 4: "\<not> isVideoGenerating vst \<and> 0 < maxHistory vst \<longrightarrow>
            is_pending (heap (generateVideo True vgid vnm vdet vnow vst)
              (hd (results (generateVideo True vgid vnm vdet vnow vst))))"
    using generateVideo_head_pending [of vst vgid vnm vdet vnow]
    by (simp add: is_pending_def placeholder_def)
  show ?thesis using 1 2 3 4
    by (simp add: derived_asset_def image_asset_def createObjectURL_nonempty)
qed

theorem only_video_inserts_pending_witness:
  "records (derivative_run [DeriveMaterial (Some example_file),
       DeriveDone example_derived ''D1'' ''a-derived.png'' ''5 B'' 7] (derivative_init 2))
     = [Some (derived_asset example_derived ''D1'' ''a-derived.png'' ''5 B'' 7)] \<and>
   results (removeAsset_derivative ''D1'' (derivative_run [DeriveMaterial (Some example_file),
       DeriveDone example_derived ''D1'' ''a-derived.png'' ''5 B'' 7] (derivative_init 2))) = [] \<and>
   \<not> is_pending (heap (derivative_run [DeriveMaterial (Some example_file),
       DeriveDone example_derived ''D1'' ''a-derived.png'' ''5 B'' 7] (derivative_init 2)) 0) \<and>
   records (image_run [GenerateImage 1,
       ImageRound ''i1'' 6 ''0e'' ''I1'' ''image/png'' ''image-1x1.png'' ''1 x 1px'' ''6 B'' 8]
       (image_init 2))
     = [Some (image_asset ''i1'' 6 ''0e'' ''I1'' ''image/png'' ''image-1x1.png'' ''1 x 1px'' ''6 B'' 8)] \<and>
   is_pending (heap (generateVideo True ''V1'' ''video-640x360.mp4'' ''640 x 360px'' 9 (video_init 2))
     (hd (results (generateVideo True ''V1'' ''video-640x360.mp4'' ''640 x 360px'' 9 (video_init 2)))))"
proof -
  let ?devs = "[DeriveMaterial (Some example_file),
       DeriveDone example_derived ''D1'' ''a-derived.png'' ''5 B'' 7]"
  let ?ievs = "[GenerateImage 1,
       ImageRound ''i1'' 6 ''0e'' ''I1'' ''image/png'' ''image-1x1.png'' ''1 x 1px'' ''6 B'' 8]"
  let ?dst = "derivative_run ?devs (derivative_init 2)"
  note t = only_video_inserts_pending [OF refl refl, where devs = ?devs and mh = 2
      and ievs = ?ievs and mh' = 2 and i = "''D1''" and vst = "video_init 2" and vgid = "''V1''"
      and vnm = "''video-640x360.mp4''" and vdet = "''640 x 360px''" and vnow = 9]
  have 1: "records ?dst = [Some (derived_asset example_derived ''D1'' ''a-derived.png'' ''5 B'' 7)]"
    by code_simp
  have 2: "results ?dst = [0]" by code_simp
  have 3: "results (removeAsset_derivative ''D1'' ?dst) = []" by code_simp
  have 4: "records (image_run ?ievs (image_init 2))
     = [Some (image_asset ''i1'' 6 ''0e'' ''I1'' ''image/png'' ''image-1x1.png'' ''1 x 1px'' ''6 B'' 8)]"
    by code_simp
  have 5: "\<not> isVideoGenerating (video_init 2) \<and> 0 < maxHistory (video_init 2)"
    by (simp add: video_init_def)
  have 6: "0 \<in> set (results ?dst)" "0 \<notin> set (results (removeAsset_derivative ''D1'' ?dst))"
    unfolding 2 3 by simp_all
  have 7: "\<not> is_pending (heap ?dst 0)"
    using t [THEN conjunct2, THEN conjunct2, THEN conjunct2, THEN conjunct2, THEN conjunct2,
        THEN conjunct2, THEN conjunct1, rule_format, OF 6] .
  have 8: "is_pending (heap (generateVideo True ''V1'' ''video-640x360.mp4'' ''640 x 360px'' 9 (video_init 2))
     (hd (results (generateVideo True ''V1'' ''video-640x360.mp4'' ''640 x 360px'' 9 (video_init 2)))))"
    using t [THEN conjunct2, THEN conjunct2, THEN conjunct2, THEN conjunct2, THEN conjunct2,
        THEN conjunct2, THEN conjunct2, rule_format, OF 5] .
  from 1 3 7 4 8 show ?thesis by (intro conjI)
qed

end
